theory Spec2Isabelle
  imports Complex_Main
begin

section \<open>JavaScript numbers\<close>

text \<open>
  The numbers of \<^verbatim>\<open>server.js\<close> are JavaScript numbers, that is binary64. The model
  keeps their special values, which the code tests for (\<^verbatim>\<open>Infinity\<close> as the start
  of a running minimum, \<^verbatim>\<open>Number.isFinite\<close>, the falsy values \<^verbatim>\<open>0\<close> and
  \<^verbatim>\<open>NaN\<close>). A finite value is a real number, and every arithmetic operation gives the
  exact result rounded to the nearest binary64 number, ties to even, and an infinity on
  overflow. The two zeros are one: only a division by zero tells them apart, and the code
  never divides by zero.
\<close>

datatype jsnum = Fin real | PInf | NInf | NaN

text \<open>
  Rounding to the nearest integer, ties to even; the binary exponent of a number, not below
  that of the subnormal numbers; and the rounding of a real number to binary64: 53 bits
  at that exponent, an infinity when the rounded magnitude reaches \<open>2\<^sup>1\<^sup>0\<^sup>2\<^sup>4\<close>.
\<close>

definition rne :: "real \<Rightarrow> int" where
  "rne q = (let f = \<lfloor>q\<rfloor>; d = q - of_int f
            in if d < 1 / 2 then f else if 1 / 2 < d then f + 1
               else if even f then f else f + 1)"

fun up :: "nat \<Rightarrow> real \<Rightarrow> int" where
  "up 0 x = 0"
| "up (Suc n) x = (if x < 2 then 0 else up n (x / 2) + 1)"

fun down :: "nat \<Rightarrow> real \<Rightarrow> int" where
  "down 0 x = 0"
| "down (Suc n) x = (if 1 \<le> x then 0 else down n (2 * x) - 1)"

definition expo :: "real \<Rightarrow> int" where
  "expo x = (if 1 \<le> \<bar>x\<bar> then up 1023 \<bar>x\<bar> else down 1022 \<bar>x\<bar>)"

definition fl :: "real \<Rightarrow> jsnum" where
  "fl x = (if x = 0 then Fin 0
           else (let ulp = 2 powi (expo x - 52);
                     y = of_int (rne (x / ulp)) * ulp
                 in if 2 ^ 1024 \<le> \<bar>y\<bar> then (if 0 < x then PInf else NInf) else Fin y))"

fun isFinite :: "jsnum \<Rightarrow> bool" where
  "isFinite (Fin a) = True"
| "isFinite x = False"

text \<open>ToBoolean of a number: \<^verbatim>\<open>0\<close> and \<^verbatim>\<open>NaN\<close> are falsy.\<close>

fun truthy :: "jsnum \<Rightarrow> bool" where
  "truthy (Fin a) = (a \<noteq> 0)"
| "truthy NaN = False"
| "truthy x = True"

fun jneg :: "jsnum \<Rightarrow> jsnum" where
  "jneg (Fin a) = Fin (- a)"
| "jneg PInf = NInf"
| "jneg NInf = PInf"
| "jneg NaN = NaN"

fun jadd :: "jsnum \<Rightarrow> jsnum \<Rightarrow> jsnum" where
  "jadd (Fin a) (Fin b) = fl (a + b)"
| "jadd NaN y = NaN"
| "jadd x NaN = NaN"
| "jadd PInf NInf = NaN"
| "jadd NInf PInf = NaN"
| "jadd PInf y = PInf"
| "jadd x PInf = PInf"
| "jadd NInf y = NInf"
| "jadd x NInf = NInf"

definition jsub :: "jsnum \<Rightarrow> jsnum \<Rightarrow> jsnum" where
  "jsub x y = jadd x (jneg y)"

text \<open>The sign of a number that is not \<^verbatim>\<open>NaN\<close>, and the infinity of a sign.\<close>

fun jsign :: "jsnum \<Rightarrow> real" where
  "jsign (Fin a) = sgn a"
| "jsign PInf = 1"
| "jsign NInf = - 1"
| "jsign NaN = 0"

definition inf_of :: "real \<Rightarrow> jsnum" where
  "inf_of s = (if s = 0 then NaN else if 0 < s then PInf else NInf)"

fun jmul :: "jsnum \<Rightarrow> jsnum \<Rightarrow> jsnum" where
  "jmul (Fin a) (Fin b) = fl (a * b)"
| "jmul x y = (if x = NaN \<or> y = NaN then NaN else inf_of (jsign x * jsign y))"

text \<open>
  Division; a zero divisor counts as \<^verbatim>\<open>+0\<close>. The code divides by a norm it has
  checked to be non-zero and finite, and by the length of a non-empty array.
\<close>

fun jdiv :: "jsnum \<Rightarrow> jsnum \<Rightarrow> jsnum" where
  "jdiv (Fin a) (Fin b) = (if b = 0 then inf_of a else fl (a / b))"
| "jdiv NaN y = NaN"
| "jdiv x NaN = NaN"
| "jdiv (Fin a) y = Fin 0"
| "jdiv x (Fin b) = inf_of (jsign x * (if b = 0 then 1 else sgn b))"
| "jdiv x y = NaN"

text \<open>\<^verbatim>\<open>x ** 2\<close>, taken to be the correctly rounded square.\<close>

fun jpow2 :: "jsnum \<Rightarrow> jsnum" where
  "jpow2 (Fin a) = fl (a ^ 2)"
| "jpow2 NaN = NaN"
| "jpow2 x = PInf"

text \<open>\<^verbatim>\<open>Math.sqrt\<close>\<close>

fun jsqrt :: "jsnum \<Rightarrow> jsnum" where
  "jsqrt (Fin a) = (if a < 0 then NaN else fl (sqrt a))"
| "jsqrt PInf = PInf"
| "jsqrt x = NaN"

text \<open>The comparisons: each is false as soon as an operand is \<^verbatim>\<open>NaN\<close>.\<close>

fun jlt :: "jsnum \<Rightarrow> jsnum \<Rightarrow> bool" where
  "jlt (Fin a) (Fin b) = (a < b)"
| "jlt NaN y = False"
| "jlt x NaN = False"
| "jlt PInf y = False"
| "jlt x NInf = False"
| "jlt x y = True"

fun jle :: "jsnum \<Rightarrow> jsnum \<Rightarrow> bool" where
  "jle (Fin a) (Fin b) = (a \<le> b)"
| "jle NaN y = False"
| "jle x NaN = False"
| "jle NInf y = True"
| "jle x PInf = True"
| "jle x y = False"

definition jgt :: "jsnum \<Rightarrow> jsnum \<Rightarrow> bool" where
  "jgt x y = jlt y x"

definition jge :: "jsnum \<Rightarrow> jsnum \<Rightarrow> bool" where
  "jge x y = jle y x"

section \<open>Embedding utilities\<close>

type_synonym embedding = "jsnum list"

text \<open>
  An array element used as an operand: past the end the read gives \<^verbatim>\<open>undefined\<close>,
  which every arithmetic operator turns into \<^verbatim>\<open>NaN\<close>.
\<close>

definition idx :: "embedding \<Rightarrow> nat \<Rightarrow> jsnum" where
  "idx xs i = (if i < length xs then xs ! i else NaN)"

text \<open>
  \<^verbatim>\<open>function normalizeEmbedding(embedding) {
    const norm = Math.sqrt(embedding.reduce((sum, val) => sum + val * val, 0));
    if (!norm || !Number.isFinite(norm)) return embedding;
    return embedding.map(val => val / norm);
}\<close>
\<close>

definition normalizeEmbedding :: "embedding \<Rightarrow> embedding" where
  "normalizeEmbedding embedding =
     (let norm = jsqrt (foldl (\<lambda>sum val. jadd sum (jmul val val)) (Fin 0) embedding)
      in if \<not> truthy norm \<or> \<not> isFinite norm then embedding
         else map (\<lambda>val. jdiv val norm) embedding)"

text \<open>
  \<^verbatim>\<open>function euclideanDistance(a, b) {
    let sum = 0;
    for (let i = 0; i < a.length; i++) { sum += (a[i] - b[i]) ** 2; }
    return Math.sqrt(sum);
}\<close>
\<close>

definition euclideanDistance :: "embedding \<Rightarrow> embedding \<Rightarrow> jsnum" where
  "euclideanDistance a b =
     jsqrt (foldl (\<lambda>sum i. jadd sum (jpow2 (jsub (idx a i) (idx b i)))) (Fin 0) [0..<length a])"

text \<open>
  \<^verbatim>\<open>function cosineSimilarity(a, b) {
    let dot = 0;
    for (let i = 0; i < a.length; i++) { dot += a[i] * b[i]; }
    return dot;
}\<close>
\<close>

definition cosineSimilarity :: "embedding \<Rightarrow> embedding \<Rightarrow> jsnum" where
  "cosineSimilarity a b =
     foldl (\<lambda>dot i. jadd dot (jmul (idx a i) (idx b i))) (Fin 0) [0..<length a]"

text \<open>
  \<^verbatim>\<open>function averageEmbeddings(embeddings) {
    const length = embeddings[0].length;
    const sum = new Array(length).fill(0);
    for (const emb of embeddings) {
        for (let i = 0; i < length; i++) { sum[i] += emb[i]; }
    }
    return sum.map(v => v / embeddings.length);
}\<close>
  On an empty array \<^verbatim>\<open>embeddings[0]\<close> is \<^verbatim>\<open>undefined\<close> and reading its
  \<^verbatim>\<open>length\<close> throws a TypeError.
\<close>

datatype failure = ImageError | ExtractionError

datatype error = TypeError | Rejected failure

definition add_into :: "nat \<Rightarrow> embedding \<Rightarrow> embedding \<Rightarrow> embedding" where
  "add_into len acc emb = foldl (\<lambda>s i. s[i := jadd (s ! i) (idx emb i)]) acc [0..<len]"

definition averageEmbeddings :: "embedding list \<Rightarrow> error + embedding" where
  "averageEmbeddings embeddings =
     (case embeddings of
        [] \<Rightarrow> Inl TypeError
      | e0 # _ \<Rightarrow>
          (let len = length e0;
               sum = foldl (add_into len) (replicate len (Fin 0)) embeddings
           in Inr (map (\<lambda>v. jdiv v (Fin (real (length embeddings)))) sum)))"

section \<open>Augmentation\<close>

text \<open>
  The image library and the model are outside the program. A call to them either gives
  its result or rejects, which aborts the request. \<^verbatim>\<open>metadata\<close> gives the width and
  the height when the image has them; \<^verbatim>\<open>extractResize\<close> is the chain
  \<^verbatim>\<open>image.clone().extract({left, top, width: side, height: side}).resize(112, 112).raw().toBuffer()\<close>;
  \<^verbatim>\<open>getEmbeddingFromBuffer\<close> is the function of that name, which runs the model.
\<close>

record ('img, 'buf) collaborators =
  metadata :: "'img \<Rightarrow> failure + (nat option \<times> nat option)"
  preprocessTo112 :: "'img \<Rightarrow> failure + 'buf"
  extractResize :: "'img \<Rightarrow> nat \<Rightarrow> nat \<Rightarrow> nat \<Rightarrow> failure + 'buf"
  getEmbeddingFromBuffer :: "'buf \<Rightarrow> failure + embedding"

definition and_then :: "'e + 'a \<Rightarrow> ('a \<Rightarrow> 'e + 'b) \<Rightarrow> 'e + 'b" where
  "and_then r f = (case r of Inl e \<Rightarrow> Inl e | Inr x \<Rightarrow> f x)"

text \<open>A loop of awaited calls: in order, and the first rejection ends it.\<close>

fun each :: "('a \<Rightarrow> 'e + 'b) \<Rightarrow> 'a list \<Rightarrow> 'e + 'b list" where
  "each f [] = Inr []"
| "each f (x # xs) = and_then (f x) (\<lambda>y. and_then (each f xs) (\<lambda>ys. Inr (y # ys)))"

text \<open>
  \<^verbatim>\<open>width && height\<close>: a dimension that is missing or zero is falsy. The side of a
  crop, \<^verbatim>\<open>Math.floor(square * ratio)\<close>, is the integer part of the exact product.
\<close>

definition known :: "nat option \<Rightarrow> bool" where
  "known d = (case d of None \<Rightarrow> False | Some n \<Rightarrow> n \<noteq> 0)"

definition ratios :: "real list" where
  "ratios = [0.92, 0.85]"

definition crop :: "('img, 'buf) collaborators \<Rightarrow> 'img \<Rightarrow> nat \<Rightarrow> nat \<Rightarrow> real \<Rightarrow> failure + 'buf" where
  "crop col img width height ratio =
     (let square = min width height;
          side = nat \<lfloor>real square * ratio\<rfloor>;
          cleft = (width - side) div 2;
          ctop = (height - side) div 2
      in extractResize col img cleft ctop side)"

definition getAugmentedEmbeddings ::
  "('img, 'buf) collaborators \<Rightarrow> 'img \<Rightarrow> failure + embedding list" where
  "getAugmentedEmbeddings col imagePath =
     and_then (metadata col imagePath) (\<lambda>(width, height).
     and_then (preprocessTo112 col imagePath) (\<lambda>full.
     and_then (if known width \<and> known height
           then each (crop col imagePath (the width) (the height)) ratios
           else Inr []) (\<lambda>cropped.
     each (\<lambda>buffer. and_then (getEmbeddingFromBuffer col buffer)
                       (\<lambda>embedding. Inr (normalizeEmbedding embedding)))
          (full # cropped))))"

section \<open>Person profile\<close>

record profile =
  embeddings :: "embedding list"
  centroid :: embedding
  maxIntraDistance :: jsnum
  minIntraSimilarity :: jsnum

definition intra_step :: "embedding \<Rightarrow> jsnum \<times> jsnum \<Rightarrow> embedding \<Rightarrow> jsnum \<times> jsnum" where
  "intra_step cen st emb =
     (let distance = euclideanDistance emb cen;
          similarity = cosineSimilarity emb cen
      in (if jgt distance (fst st) then distance else fst st,
          if jlt similarity (snd st) then similarity else snd st))"

definition buildPersonProfile :: "embedding list \<Rightarrow> error + profile" where
  "buildPersonProfile embs =
     and_then (averageEmbeddings embs) (\<lambda>avg.
       (let cen = normalizeEmbedding avg;
            st = foldl (intra_step cen) (Fin 0, PInf) embs
        in Inr \<lparr>embeddings = embs, centroid = cen,
                maxIntraDistance = fst st, minIntraSimilarity = snd st\<rparr>))"

section \<open>The endpoints\<close>

text \<open>
  The thresholds are read once from the environment, \<^verbatim>\<open>Number(process.env.X || default)\<close>,
  so each is some number, \<^verbatim>\<open>NaN\<close> included. A default is the binary64 number nearest
  to its decimal literal.
\<close>

record config =
  DISTANCE_THRESHOLD :: jsnum
  COSINE_THRESHOLD :: jsnum
  REQUIRED_VARIANT_MATCHES :: jsnum

definition default_config :: config where
  "default_config =
     \<lparr>DISTANCE_THRESHOLD = fl 0.95, COSINE_THRESHOLD = fl 0.62, REQUIRED_VARIANT_MATCHES = fl 1\<rparr>"

text \<open>
  The profiles are files of the directory \<^verbatim>\<open>data\<close>, one per name, here a map from the
  path to the profile; the path is the one \<^verbatim>\<open>path.join\<close> builds for a name without
  path separators. \<^verbatim>\<open>JSON.stringify\<close> writes a number that is not finite as
  \<^verbatim>\<open>null\<close>, which the arithmetic of the later reader takes for \<^verbatim>\<open>0\<close>.
\<close>

type_synonym store = "string \<rightharpoonup> profile"

definition profilePath :: "string \<Rightarrow> string" where
  "profilePath name = ''data/'' @ name @ ''.json''"

definition json_number :: "jsnum \<Rightarrow> jsnum" where
  "json_number x = (if isFinite x then x else Fin 0)"

definition json_profile :: "profile \<Rightarrow> profile" where
  "json_profile p =
     \<lparr>embeddings = map (map json_number) (embeddings p),
      centroid = map json_number (centroid p),
      maxIntraDistance = json_number (maxIntraDistance p),
      minIntraSimilarity = json_number (minIntraSimilarity p)\<rparr>"

record thresholds =
  distance :: jsnum
  cosine :: jsnum

record match_result =
  message :: string
  minDistance :: jsnum
  maxSimilarity :: jsnum
  centroidDistance :: jsnum
  centroidSimilarity :: jsnum
  variantMatches :: nat
  thresholds :: thresholds

text \<open>
  The bodies of the responses: a message alone; the registration's message,
  \<^verbatim>\<open>samplesStored\<close>, \<^verbatim>\<open>maxIntraDistance\<close> and \<^verbatim>\<open>minIntraSimilarity\<close>; the
  result of a comparison.
\<close>

datatype body = Message string | Registered string nat jsnum jsnum | Result match_result

record response =
  status :: nat
  body :: body

text \<open>\<^verbatim>\<open>!name\<close>: a name that is missing or empty is falsy.\<close>

definition given :: "string option \<Rightarrow> bool" where
  "given name = (case name of None \<Rightarrow> False | Some n \<Rightarrow> n \<noteq> [])"

text \<open>
  \<^verbatim>\<open>app.post("/register", ...)\<close>. The result is the response, or the error that aborted
  the request, and the files of \<^verbatim>\<open>data\<close> afterwards.
\<close>

definition post_register ::
  "('img, 'buf) collaborators \<Rightarrow> store \<Rightarrow> string option \<Rightarrow> 'img list option
     \<Rightarrow> (error + response) \<times> store" where
  "post_register col data name files =
     (if \<not> given name then (Inr \<lparr>status = 400, body = Message ''Name is required''\<rparr>, data)
      else if files = None \<or> length (the files) = 0
        then (Inr \<lparr>status = 400, body = Message ''At least one image required''\<rparr>, data)
      else
        (case each (getAugmentedEmbeddings col) (the files) of
           Inl f \<Rightarrow> (Inl (Rejected f), data)
         | Inr variants \<Rightarrow>
             (let embs = concat variants in
              case buildPersonProfile embs of
                Inl e \<Rightarrow> (Inl e, data)
              | Inr profile \<Rightarrow>
                  (Inr \<lparr>status = 200,
                        body = Registered ''Person Registered'' (length embs)
                                 (maxIntraDistance profile) (minIntraSimilarity profile)\<rparr>,
                   data(profilePath (the name) \<mapsto> json_profile profile)))))"

text \<open>The pairwise sweep of \<^verbatim>\<open>app.post("/find", ...)\<close>: one turn of the inner loop.\<close>

definition sweep_step ::
  "config \<Rightarrow> embedding \<Rightarrow> jsnum \<times> jsnum \<times> nat \<Rightarrow> embedding \<Rightarrow> jsnum \<times> jsnum \<times> nat" where
  "sweep_step cfg query st saved =
     (case st of (minD, maxS, vm) \<Rightarrow>
        (let distance = euclideanDistance saved query;
             similarity = cosineSimilarity saved query
         in (if jlt distance minD then distance else minD,
             if jgt similarity maxS then similarity else maxS,
             if jle distance (DISTANCE_THRESHOLD cfg) \<and> jge similarity (COSINE_THRESHOLD cfg)
             then vm + 1 else vm)))"

definition sweep :: "config \<Rightarrow> embedding list \<Rightarrow> embedding list \<Rightarrow> jsnum \<times> jsnum \<times> nat" where
  "sweep cfg queryEmbeddings saveds =
     foldl (\<lambda>st query. foldl (sweep_step cfg query) st saveds) (PInf, NInf, 0) queryEmbeddings"

definition isMatch :: "config \<Rightarrow> jsnum \<Rightarrow> jsnum \<Rightarrow> nat \<Rightarrow> bool" where
  "isMatch cfg minD maxS vm =
     (jle minD (DISTANCE_THRESHOLD cfg) \<and> jge maxS (COSINE_THRESHOLD cfg)
      \<and> jge (Fin (real vm)) (REQUIRED_VARIANT_MATCHES cfg))"

text \<open>
  \<^verbatim>\<open>queryEmbeddings[0]\<close> is \<^verbatim>\<open>undefined\<close> on an empty array. A distance or a
  similarity to \<^verbatim>\<open>undefined\<close> throws a TypeError at its first \<^verbatim>\<open>b[i]\<close>, unless
  \<^verbatim>\<open>a\<close> is empty and the loop never runs.
\<close>

definition first :: "'a list \<Rightarrow> 'a option" where
  "first xs = (case xs of [] \<Rightarrow> None | x # _ \<Rightarrow> Some x)"

definition against ::
  "(embedding \<Rightarrow> embedding \<Rightarrow> jsnum) \<Rightarrow> embedding \<Rightarrow> embedding option \<Rightarrow> error + jsnum" where
  "against f a b =
     (case b of
        Some b' \<Rightarrow> Inr (f a b')
      | None \<Rightarrow> (if length a = 0 then Inr (f a []) else Inl TypeError))"

definition post_find ::
  "config \<Rightarrow> ('img, 'buf) collaborators \<Rightarrow> store \<Rightarrow> string option \<Rightarrow> 'img option
     \<Rightarrow> error + response" where
  "post_find cfg col data name file =
     (if \<not> given name then Inr \<lparr>status = 400, body = Message ''Name required''\<rparr>
      else if file = None then Inr \<lparr>status = 400, body = Message ''Image required''\<rparr>
      else
        (case data (profilePath (the name)) of
           None \<Rightarrow> Inr \<lparr>status = 200, body = Message ''Person not registered''\<rparr>
         | Some profile \<Rightarrow>
             (case getAugmentedEmbeddings col (the file) of
                Inl f \<Rightarrow> Inl (Rejected f)
              | Inr queryEmbeddings \<Rightarrow>
                  (case sweep cfg queryEmbeddings (embeddings profile) of
                     (minD, maxS, vm) \<Rightarrow>
                       and_then (against euclideanDistance (centroid profile) (first queryEmbeddings))
                         (\<lambda>cd.
                       and_then (against cosineSimilarity (centroid profile) (first queryEmbeddings))
                         (\<lambda>cs.
                       Inr \<lparr>status = 200,
                            body = Result
                              \<lparr>message = (if isMatch cfg minD maxS vm
                                           then ''Person Found'' else ''Person Not Found''),
                               minDistance = minD, maxSimilarity = maxS,
                               centroidDistance = cd, centroidSimilarity = cs,
                               variantMatches = vm,
                               thresholds = \<lparr>distance = DISTANCE_THRESHOLD cfg,
                                             cosine = COSINE_THRESHOLD cfg\<rparr>\<rparr>\<rparr>))))))"

section \<open>Notions of the specification\<close>

text \<open>The Euclidean norm of a vector of reals.\<close>

definition enorm :: "real list \<Rightarrow> real" where
  "enorm xs = sqrt (\<Sum>x\<leftarrow>xs. x ^ 2)"

text \<open>
  The unit roundoff of binary64, which bounds the relative error of a rounding that
  neither overflows nor underflows.
\<close>

definition roundoff :: real where
  "roundoff = 1 / 2 ^ 53"

text \<open>
  Half the least positive binary64 number, which bounds the absolute error of a rounding
  that underflows.
\<close>

definition tiny :: real where
  "tiny = 1 / 2 ^ 1075"

text \<open>The element-wise mean of a non-empty collection of vectors of one length.\<close>

definition mean :: "real list list \<Rightarrow> real list" where
  "mean es = map (\<lambda>i. (\<Sum>e\<leftarrow>es. e ! i) / real (length es)) [0..<length (hd es)]"

text \<open>
  The least and the greatest element of a list of numbers, in the order of the
  comparisons.
\<close>

definition is_min :: "jsnum \<Rightarrow> jsnum list \<Rightarrow> bool" where
  "is_min m ds = (m \<in> set ds \<and> (\<forall>d\<in>set ds. jle m d))"

definition is_max :: "jsnum \<Rightarrow> jsnum list \<Rightarrow> bool" where
  "is_max m ds = (m \<in> set ds \<and> (\<forall>d\<in>set ds. jge m d))"

text \<open>The entries of a list that are numbers.\<close>

definition numbers :: "jsnum list \<Rightarrow> jsnum list" where
  "numbers ds = filter (\<lambda>d. d \<noteq> NaN) ds"

text \<open>
  The distances and the similarities of all pairs of a query variant and a stored
  variant, and the pairs that pass both thresholds.
\<close>

definition distances :: "embedding list \<Rightarrow> embedding list \<Rightarrow> jsnum list" where
  "distances queryEmbeddings saveds =
     map (\<lambda>(query, saved). euclideanDistance saved query) (List.product queryEmbeddings saveds)"

definition similarities :: "embedding list \<Rightarrow> embedding list \<Rightarrow> jsnum list" where
  "similarities queryEmbeddings saveds =
     map (\<lambda>(query, saved). cosineSimilarity saved query) (List.product queryEmbeddings saveds)"

definition matching_pairs ::
  "config \<Rightarrow> embedding list \<Rightarrow> embedding list \<Rightarrow> (embedding \<times> embedding) list" where
  "matching_pairs cfg queryEmbeddings saveds =
     filter (\<lambda>(query, saved).
               jle (euclideanDistance saved query) (DISTANCE_THRESHOLD cfg)
               \<and> jge (cosineSimilarity saved query) (COSINE_THRESHOLD cfg))
            (List.product queryEmbeddings saveds)"

text \<open>
  Numbers that are not at most zero, the finite ones from the least positive binary64
  number \<open>2\<^sup>-\<^sup>1\<^sup>0\<^sup>7\<^sup>4\<close> on, and numbers that are not below zero.
\<close>

definition above0 :: "jsnum \<Rightarrow> bool" where
  "above0 x = (case x of Fin r \<Rightarrow> 1 / 2 ^ 1074 \<le> r | PInf \<Rightarrow> True | NInf \<Rightarrow> False | NaN \<Rightarrow> True)"

definition from0 :: "jsnum \<Rightarrow> bool" where
  "from0 x = (case x of Fin r \<Rightarrow> 0 \<le> r | PInf \<Rightarrow> True | NInf \<Rightarrow> False | NaN \<Rightarrow> True)"

text \<open>
  Two entries whose difference has a square that does not underflow: finite entries that
  differ by \<open>2\<^sup>-\<^sup>5\<^sup>3\<^sup>7\<close> or more, or an entry that is not finite.
\<close>

definition apart :: "jsnum \<Rightarrow> jsnum \<Rightarrow> bool" where
  "apart x y = (case (x, y) of (Fin a, Fin b) \<Rightarrow> 1 / 2 ^ 537 \<le> \<bar>a - b\<bar> | _ \<Rightarrow> True)"

text \<open>
  Collaborators to run the endpoints on: an image is a number, its metadata are
  \<open>dims\<close>, the buffer of the full image is 0 and the buffer of a crop is its side, and
  the model gives the embedding \<open>model buffer\<close>.
\<close>

definition stub :: "nat option \<times> nat option \<Rightarrow> (nat \<Rightarrow> embedding) \<Rightarrow> (nat, nat) collaborators" where
  "stub dims model =
     \<lparr>metadata = (\<lambda>img. Inr dims),
      preprocessTo112 = (\<lambda>img. Inr 0),
      extractResize = (\<lambda>img cleft ctop side. Inr side),
      getEmbeddingFromBuffer = (\<lambda>buffer. Inr (model buffer))\<rparr>"

definition alice :: profile where
  "alice = \<lparr>embeddings = [[Fin 1], [Fin (- 1)]], centroid = [Fin 0],
            maxIntraDistance = Fin 1, minIntraSimilarity = Fin 0\<rparr>"

definition bob :: profile where
  "bob = \<lparr>embeddings = [[Fin 1]], centroid = [Fin 1],
          maxIntraDistance = Fin 0, minIntraSimilarity = Fin 1\<rparr>"

text \<open>
  A binary64 number whose square underflows, and the profile that a registration stores for
  one image without dimensions whose embedding is \<open>[1, faint]\<close>.
\<close>

definition faint :: real where
  "faint = 1 / 2 ^ 600"

text \<open>A binary64 number whose square overflows.\<close>

definition huge :: real where
  "huge = 2 ^ 600"

definition carol :: profile where
  "carol = \<lparr>embeddings = [[Fin 1, Fin faint]], centroid = [Fin 1, Fin faint],
            maxIntraDistance = Fin 0, minIntraSimilarity = Fin 1\<rparr>"

section \<open>Properties of the rounding\<close>

lemma rne_error: "\<bar>of_int (rne q) - q\<bar> \<le> 1 / 2"
  unfolding rne_def Let_def by (auto simp: abs_if) linarith+

lemma rne_of_int: "rne (of_int k) = k"
  by (simp add: rne_def)

lemma rne_nonneg: "0 \<le> q \<Longrightarrow> 0 \<le> rne q"
  unfolding rne_def Let_def by (auto simp: zero_le_floor) 

lemma rne_nonpos: "q \<le> 0 \<Longrightarrow> rne q \<le> 0"
proof -
  assume q: "q \<le> 0"
  have f: "\<lfloor>q\<rfloor> \<le> 0" using q by (simp add: floor_le_zero)
  show ?thesis
  proof (cases "\<lfloor>q\<rfloor> = 0")
    case True
    then have "q = 0" using q by (metis floor_less_zero less_eq_real_def linorder_not_less of_int_0 of_int_floor_le order_antisym)
    then show ?thesis by (simp add: rne_def)
  next
    case False
    then have "\<lfloor>q\<rfloor> + 1 \<le> 0" using f by linarith
    then show ?thesis using f unfolding rne_def Let_def by auto
  qed
qed

lemma rne_pos: "1 / 2 < q \<Longrightarrow> 1 \<le> rne q"
proof -
  assume q: "1 / 2 < q"
  have f: "0 \<le> \<lfloor>q\<rfloor>" using q by (simp add: zero_le_floor)
  show ?thesis
  proof (cases "\<lfloor>q\<rfloor> = 0")
    case True
    then have "1 / 2 < q - of_int \<lfloor>q\<rfloor>" using q by simp
    then show ?thesis using True unfolding rne_def Let_def by auto
  next
    case False
    then have "1 \<le> \<lfloor>q\<rfloor>" using f by linarith
    then show ?thesis unfolding rne_def Let_def by auto
  qed
qed

lemma rne_half: "\<bar>q\<bar> \<le> 1 / 2 \<Longrightarrow> rne q = 0"
proof -
  assume q: "\<bar>q\<bar> \<le> 1 / 2"
  consider "0 \<le> q" | "q < 0" by linarith
  then show ?thesis
  proof cases
    case 1
    then have "\<lfloor>q\<rfloor> = 0" using q by (intro floor_unique) auto
    then show ?thesis using q 1 unfolding rne_def Let_def by auto
  next
    case 2
    then have "\<lfloor>q\<rfloor> = - 1" using q by (intro floor_unique) auto
    then show ?thesis using q 2 unfolding rne_def Let_def by auto
  qed
qed

lemma up_bounds:
  "1 \<le> x \<Longrightarrow> 0 \<le> up n x \<and> up n x \<le> int n \<and> 2 powi (up n x) \<le> x
     \<and> (x < 2 ^ (n + 1) \<longrightarrow> x < 2 powi (up n x + 1))"
proof (induction n arbitrary: x)
  case 0
  then show ?case by simp
next
  case (Suc n)
  show ?case
  proof (cases "x < 2")
    case True
    then show ?thesis using Suc.prems by simp
  next
    case False
    then have h: "1 \<le> x / 2" by simp
    note ih = Suc.IH [OF h]
    have a: "2 powi (up n (x / 2) + 1) \<le> x"
      using ih by (simp add: power_int_add)
    have b: "x < 2 powi (up n (x / 2) + 1 + 1)" if "x < 2 ^ (Suc n + 1)"
    proof -
      have "x / 2 < 2 ^ (n + 1)" using that by simp
      then have "x / 2 < 2 powi (up n (x / 2) + 1)" using ih by blast
      then show ?thesis by (simp add: power_int_add)
    qed
    show ?thesis using False ih a b by simp
  qed
qed

lemma down_bounds:
  "0 < x \<Longrightarrow> x < 2 \<Longrightarrow> - int n \<le> down n x \<and> down n x \<le> 0 \<and> x < 2 powi (down n x + 1)
     \<and> (2 powi (- int n) \<le> x \<longrightarrow> 2 powi (down n x) \<le> x)
     \<and> (x < 2 powi (- int n) \<longrightarrow> down n x = - int n)"
proof (induction n arbitrary: x)
  case 0
  then show ?case by simp
next
  case (Suc n)
  show ?case
  proof (cases "1 \<le> x")
    case True
    have "(2::real) powi (- int (Suc n)) = 1 / 2 ^ Suc n"
      by (simp only: power_int_minus_divide power_int_of_nat)
    moreover have "1 / 2 ^ Suc n \<le> (1::real)"
      by (simp only: divide_le_eq_1_pos zero_less_power zero_less_numeral)
         (rule one_le_power, simp)
    ultimately have "2 powi (- int (Suc n)) \<le> (1::real)" by simp
    then show ?thesis using True Suc.prems by simp
  next
    case False
    then have h: "0 < 2 * x" "2 * x < 2" using Suc.prems by simp_all
    note ih = Suc.IH [OF h]
    have e1: "(2::real) powi (down n (2 * x) - 1 + 1) = 2 powi (down n (2 * x) + 1) / 2"
      by (simp add: power_int_add)
    have e2: "(2::real) powi (down n (2 * x) - 1) = 2 powi (down n (2 * x)) / 2"
      by (simp add: power_int_diff)
    have i: "- int (Suc n) = - int n - 1" by simp
    have "(2::real) powi (- int (Suc n)) = 2 powi (- int n - 1)" by (simp only: i)
    also have "\<dots> = 2 powi (- int n) / 2 powi 1" by (rule power_int_diff) simp
    also have "\<dots> = 2 powi (- int n) / 2" by simp
    finally have e3: "(2::real) powi (- int (Suc n)) = 2 powi (- int n) / 2" .
    have a: "x < 2 powi (down n (2 * x) - 1 + 1)" using ih unfolding e1 by simp
    have b: "2 powi (down n (2 * x) - 1) \<le> x" if "2 powi (- int (Suc n)) \<le> x"
      using that ih unfolding e2 e3 by simp
    have c: "down n (2 * x) - 1 = - int (Suc n)" if "x < 2 powi (- int (Suc n))"
      using that ih unfolding e3 by simp
    show ?thesis using False ih a b c by simp
  qed
qed

lemma p2_pos: "0 < (2::real) powi k"
  by simp

lemma p2_add: "(2::real) powi (a + b) = 2 powi a * 2 powi b"
  by (rule power_int_add) simp

lemma p2_diff: "(2::real) powi (a - b) = 2 powi a / 2 powi b"
  by (rule power_int_diff) simp

lemma p2_mono: "a \<le> b \<Longrightarrow> (2::real) powi a \<le> 2 powi b"
  by (rule power_int_increasing) simp_all

lemma p2_less: "(2::real) powi a < 2 powi b \<Longrightarrow> a < b"
  using p2_mono [of b a] by (cases "a < b") simp_all

lemma p2_int: "0 \<le> k \<Longrightarrow> (2::real) powi k = of_int (2 ^ nat k)"
  by (simp add: power_int_nonneg_exp)

lemma up_top: "2 ^ n \<le> x \<Longrightarrow> up n x = int n"
proof (induction n arbitrary: x)
  case 0
  then show ?case by simp
next
  case (Suc n)
  have "(2::real) \<le> 2 ^ Suc n" using one_le_power [of "2::real" n] by simp
  then have a: "\<not> x < 2" using Suc.prems by linarith
  have "2 ^ n \<le> x / 2" using Suc.prems by simp
  then have "up n (x / 2) = int n" by (rule Suc.IH)
  then show ?case using a by simp
qed

lemma down_zero: "down n 0 = - int n"
  by (induction n) simp_all

lemma expo_range: "- 1022 \<le> expo x \<and> expo x \<le> 1023"
proof (cases "1 \<le> \<bar>x\<bar>")
  case True
  then show ?thesis using up_bounds [of "\<bar>x\<bar>" 1023] by (simp add: expo_def)
next
  case False
  show ?thesis
  proof (cases "x = 0")
    case True
    then show ?thesis using down_zero [of 1022] by (simp add: expo_def)
  next
    case nz: False
    then have "0 < \<bar>x\<bar>" "\<bar>x\<bar> < 2" using False by simp_all
    then show ?thesis using False down_bounds [of "\<bar>x\<bar>" 1022] by (simp add: expo_def)
  qed
qed

lemma expo_upper: "\<bar>x\<bar> < 2 powi 1024 \<Longrightarrow> \<bar>x\<bar> < 2 powi (expo x + 1)"
proof (cases "1 \<le> \<bar>x\<bar>")
  case True
  assume "\<bar>x\<bar> < 2 powi 1024"
  then have "\<bar>x\<bar> < 2 ^ (1023 + 1)" by simp
  then show ?thesis using True up_bounds [of "\<bar>x\<bar>" 1023] by (simp only: expo_def if_True)
next
  case False
  show ?thesis
  proof (cases "x = 0")
    case True
    then show ?thesis by simp
  next
    case nz: False
    then have "0 < \<bar>x\<bar>" "\<bar>x\<bar> < 2" using False by simp_all
    then show ?thesis using False down_bounds [of "\<bar>x\<bar>" 1022] by (simp only: expo_def if_False)
  qed
qed

lemma expo_lower: "2 powi (- 1022) \<le> \<bar>x\<bar> \<Longrightarrow> 2 powi (expo x) \<le> \<bar>x\<bar>"
proof (cases "1 \<le> \<bar>x\<bar>")
  case True
  then show ?thesis using up_bounds [of "\<bar>x\<bar>" 1023] by (simp only: expo_def if_True)
next
  case False
  assume a: "2 powi (- 1022) \<le> \<bar>x\<bar>"
  have "0 < (2::real) powi (- 1022)" by (rule p2_pos)
  then have "0 < \<bar>x\<bar>" "\<bar>x\<bar> < 2" using a False by linarith+
  moreover have "- int 1022 = - 1022" by simp
  ultimately show ?thesis using False a down_bounds [of "\<bar>x\<bar>" 1022]
    by (simp only: expo_def if_False)
qed

lemma expo_sub: "\<bar>x\<bar> < 2 powi (- 1022) \<Longrightarrow> expo x = - 1022"
proof -
  assume a: "\<bar>x\<bar> < 2 powi (- 1022)"
  have "(2::real) powi (- 1022) \<le> 2 powi 0" by (rule p2_mono) simp
  then have b: "\<not> 1 \<le> \<bar>x\<bar>" using a by simp
  have i: "- int 1022 = - 1022" by simp
  show ?thesis
  proof (cases "x = 0")
    case True
    then show ?thesis using down_zero [of 1022] by (simp add: expo_def)
  next
    case False
    then have "0 < \<bar>x\<bar>" "\<bar>x\<bar> < 2" using b by simp_all
    then have "\<bar>x\<bar> < 2 powi (- int 1022) \<longrightarrow> down 1022 \<bar>x\<bar> = - int 1022"
      using down_bounds [of "\<bar>x\<bar>" 1022] by blast
    then have "down 1022 \<bar>x\<bar> = - 1022" using a unfolding i by blast
    then show ?thesis using b by (simp only: expo_def if_False)
  qed
qed

lemma expo_top: "2 powi 1023 \<le> \<bar>x\<bar> \<Longrightarrow> expo x = 1023"
proof -
  assume a: "2 powi 1023 \<le> \<bar>x\<bar>"
  have "(2::real) powi 0 \<le> 2 powi 1023" by (rule p2_mono) simp
  then have b: "1 \<le> \<bar>x\<bar>" using a by simp
  have "(2::real) ^ 1023 \<le> \<bar>x\<bar>" using a by simp
  then have "up 1023 \<bar>x\<bar> = int 1023" by (rule up_top)
  then show ?thesis using b by (simp add: expo_def)
qed

lemma rne_ge_int: "of_int n \<le> q \<Longrightarrow> n \<le> rne q"
proof -
  assume "of_int n \<le> q"
  then have "n \<le> \<lfloor>q\<rfloor>" by (simp add: le_floor_iff)
  then show ?thesis unfolding rne_def Let_def by auto
qed

lemma rne_minus: "rne (- q) = - rne q"
proof (cases "q = of_int \<lfloor>q\<rfloor>")
  case True
  then obtain k where "q = of_int k" ..
  then show ?thesis using rne_of_int [of k] rne_of_int [of "- k"] by simp
next
  case False
  then have f: "\<lfloor>- q\<rfloor> = - \<lfloor>q\<rfloor> - 1"
    by (metis ceiling_altdef ceiling_def diff_minus_eq_add minus_add_cancel minus_diff_eq uminus_add_conv_diff)
  have d: "0 < q - of_int \<lfloor>q\<rfloor>" using False of_int_floor_le [of q] by linarith
  have p: "even (- \<lfloor>q\<rfloor> - 1) \<longleftrightarrow> odd \<lfloor>q\<rfloor>" by simp
  show ?thesis unfolding rne_def Let_def f using d p by (auto simp: field_simps)
qed

lemma scale_err:
  fixes u x :: real
  assumes "0 < u" "\<bar>of_int m - x / u\<bar> \<le> 1 / 2"
  shows "\<bar>of_int m * u - x\<bar> \<le> u / 2"
proof -
  have "of_int m * u - x = (of_int m - x / u) * u" using assms(1) by (simp add: field_simps)
  then have "\<bar>of_int m * u - x\<bar> = \<bar>of_int m - x / u\<bar> * u" using assms(1) by (simp add: abs_mult)
  also have "\<dots> \<le> 1 / 2 * u" using assms by (intro mult_right_mono) simp_all
  finally show ?thesis by simp
qed

lemma p2_half: "(2::real) powi (e - 52) / 2 = 2 powi (e - 53)"
proof -
  have "(2::real) powi (e - 53) = 2 powi ((e - 52) - 1)" by simp
  also have "\<dots> = 2 powi (e - 52) / 2 powi 1" by (rule p2_diff)
  finally show ?thesis by simp
qed

lemma p2_neg: "(2::real) powi (- int n) = 1 / 2 ^ n"
  by (simp only: power_int_minus_divide power_int_of_nat)

lemma fl_0: "fl 0 = Fin 0"
  by (simp add: fl_def)

lemma fl_not_NaN: "fl x \<noteq> NaN"
  by (simp add: fl_def Let_def)

lemma fl_round:
  assumes "x \<noteq> 0"
  obtains m where "m = rne (x / 2 powi (expo x - 52))"
    and "\<bar>of_int m * 2 powi (expo x - 52) - x\<bar> \<le> 2 powi (expo x - 53)"
    and "fl x = (if 2 ^ 1024 \<le> \<bar>of_int m * (2::real) powi (expo x - 52)\<bar>
                 then (if 0 < x then PInf else NInf)
                 else Fin (of_int m * 2 powi (expo x - 52)))"
proof -
  let ?u = "(2::real) powi (expo x - 52)"
  let ?m = "rne (x / ?u)"
  have u: "0 < ?u" by (rule p2_pos)
  have "\<bar>of_int ?m - x / ?u\<bar> \<le> 1 / 2" by (rule rne_error)
  then have "\<bar>of_int ?m * ?u - x\<bar> \<le> ?u / 2" by (rule scale_err [OF u])
  then have e: "\<bar>of_int ?m * ?u - x\<bar> \<le> 2 powi (expo x - 53)" by (simp only: p2_half)
  have f: "fl x = (if 2 ^ 1024 \<le> \<bar>of_int ?m * ?u\<bar>
                 then (if 0 < x then PInf else NInf) else Fin (of_int ?m * ?u))"
    using assms by (simp only: fl_def Let_def if_False)
  show ?thesis using that [OF refl e f] .
qed

lemma fl_minus: "fl (- x) = jneg (fl x)"
proof (cases "x = 0")
  case True
  then show ?thesis by (simp add: fl_0)
next
  case False
  have e: "expo (- x) = expo x" by (simp add: expo_def)
  have "rne (- x / 2 powi (expo x - 52)) = - rne (x / 2 powi (expo x - 52))"
    using rne_minus [of "x / 2 powi (expo x - 52)"] by simp
  then show ?thesis using False unfolding fl_def Let_def e by (simp add: abs_mult)
qed

lemma fl_finite:
  assumes "\<bar>x\<bar> \<le> 2 ^ 1023"
  shows "\<exists>y. fl x = Fin y \<and> \<bar>y - x\<bar> \<le> 2 powi (expo x - 53)"
proof (cases "x = 0")
  case True
  then show ?thesis by (simp add: fl_0)
next
  case False
  then obtain m where e: "\<bar>of_int m * 2 powi (expo x - 52) - x\<bar> \<le> 2 powi (expo x - 53)"
    and f: "fl x = (if 2 ^ 1024 \<le> \<bar>of_int m * (2::real) powi (expo x - 52)\<bar>
                 then (if 0 < x then PInf else NInf)
                 else Fin (of_int m * 2 powi (expo x - 52)))"
    by (rule fl_round)
  let ?y = "of_int m * (2::real) powi (expo x - 52)"
  have "expo x - 53 \<le> 970" using expo_range [of x] by simp
  then have "(2::real) powi (expo x - 53) \<le> 2 powi 970" by (rule p2_mono)
  then have "\<bar>?y\<bar> \<le> 2 ^ 1023 + 2 powi 970" using e assms by linarith
  moreover have "(2::real) ^ 1023 + 2 powi 970 < 2 ^ 1024" by simp
  ultimately have "\<not> 2 ^ 1024 \<le> \<bar>?y\<bar>" by linarith
  then have "fl x = Fin ?y" using f by (simp only: if_False)
  then show ?thesis using e by blast
qed

lemma fl_err:
  assumes "\<bar>x\<bar> \<le> 2 ^ 1023"
  shows "\<exists>y. fl x = Fin y \<and> \<bar>y - x\<bar> \<le> \<bar>x\<bar> / 2 ^ 53 + 1 / 2 ^ 1075"
proof -
  obtain y where y: "fl x = Fin y" "\<bar>y - x\<bar> \<le> 2 powi (expo x - 53)"
    using fl_finite [OF assms] by blast
  have "2 powi (expo x - 53) \<le> \<bar>x\<bar> / 2 ^ 53 + 1 / 2 ^ 1075"
  proof (cases "2 powi (- 1022) \<le> \<bar>x\<bar>")
    case True
    then have "2 powi (expo x) \<le> \<bar>x\<bar>" by (rule expo_lower)
    moreover have "(2::real) powi (expo x - 53) = 2 powi (expo x) / 2 powi 53" by (rule p2_diff)
    ultimately have "2 powi (expo x - 53) \<le> \<bar>x\<bar> / 2 ^ 53" by (simp add: divide_right_mono)
    moreover have "(0::real) \<le> 1 / 2 ^ 1075" by simp
    ultimately show ?thesis by linarith
  next
    case False
    then have "expo x = - 1022" by (intro expo_sub) simp
    then have "(2::real) powi (expo x - 53) = 2 powi (- int 1075)" by simp
    also have "\<dots> = 1 / 2 ^ 1075" by (rule p2_neg)
    finally have "(2::real) powi (expo x - 53) = 1 / 2 ^ 1075" .
    moreover have "0 \<le> \<bar>x\<bar> / 2 ^ 53" by simp
    ultimately show ?thesis by linarith
  qed
  then show ?thesis using y by (intro exI [of _ y]) linarith
qed

lemma fl_rel:
  assumes "1 / 2 ^ 1022 \<le> \<bar>x\<bar>" "\<bar>x\<bar> \<le> 2 ^ 1023"
  shows "\<exists>d. \<bar>d\<bar> \<le> 1 / 2 ^ 53 \<and> fl x = Fin (x * (1 + d))"
proof -
  obtain y where y: "fl x = Fin y" "\<bar>y - x\<bar> \<le> 2 powi (expo x - 53)"
    using fl_finite [OF assms(2)] by blast
  have "(2::real) powi (- int 1022) = 1 / 2 ^ 1022" by (rule p2_neg)
  then have n: "2 powi (- 1022) \<le> \<bar>x\<bar>" using assms(1) by simp
  then have "2 powi (expo x) \<le> \<bar>x\<bar>" by (rule expo_lower)
  moreover have "(2::real) powi (expo x - 53) = 2 powi (expo x) / 2 powi 53" by (rule p2_diff)
  ultimately have "2 powi (expo x - 53) \<le> \<bar>x\<bar> / 2 ^ 53" by (simp add: divide_right_mono)
  then have b: "\<bar>y - x\<bar> \<le> \<bar>x\<bar> / 2 ^ 53" using y(2) by linarith
  have "0 < (2::real) powi (- 1022)" by (rule p2_pos)
  then have x: "x \<noteq> 0" "0 < \<bar>x\<bar>" using n by auto
  let ?d = "(y - x) / x"
  have "\<bar>?d\<bar> = \<bar>y - x\<bar> / \<bar>x\<bar>" by simp
  also have "\<dots> \<le> (\<bar>x\<bar> / 2 ^ 53) / \<bar>x\<bar>" using b x(2) by (intro divide_right_mono) simp_all
  also have "\<dots> = 1 / 2 ^ 53" using x(2) by simp
  finally have "\<bar>?d\<bar> \<le> 1 / 2 ^ 53" .
  moreover have "x * (1 + ?d) = y" using x(1) by (simp add: field_simps)
  ultimately show ?thesis using y(1) by (intro exI [of _ ?d]) simp
qed

lemma fl_exact:
  assumes "x = of_int m * 2 powi k" "\<bar>m\<bar> < 2 ^ 53" "- 1074 \<le> k" "\<bar>x\<bar> < 2 ^ 1024"
  shows "fl x = Fin x"
proof (cases "x = 0")
  case True
  then show ?thesis by (simp add: fl_0)
next
  case False
  let ?e = "expo x"
  have ek: "?e - 52 \<le> k"
  proof (cases "\<bar>x\<bar> < 2 powi (- 1022)")
    case True
    then have "?e = - 1022" by (rule expo_sub)
    then show ?thesis using assms(3) by simp
  next
    case False
    then have "2 powi ?e \<le> \<bar>x\<bar>" by (intro expo_lower) simp
    also have "\<bar>x\<bar> = \<bar>of_int m\<bar> * 2 powi k" unfolding assms(1) by (simp add: abs_mult)
    also have "\<dots> < 2 ^ 53 * 2 powi k"
    proof -
      have "\<bar>of_int m :: real\<bar> = of_int \<bar>m\<bar>" by simp
      also have "\<dots> < of_int (2 ^ 53)" using assms(2) by (simp only: of_int_less_iff)
      finally have "\<bar>of_int m :: real\<bar> < 2 ^ 53" by simp
      then show ?thesis by (intro mult_strict_right_mono p2_pos)
    qed
    also have "\<dots> = 2 powi (53 + k)" unfolding p2_add by simp
    finally have "?e < 53 + k" by (rule p2_less)
    then show ?thesis by simp
  qed
  define j where "j = nat (k - (?e - 52))"
  define U where "U = (2::real) powi (?e - 52)"
  have "(2::real) powi k = 2 powi ((k - (?e - 52)) + (?e - 52))" by simp
  also have "\<dots> = 2 powi (k - (?e - 52)) * 2 powi (?e - 52)" by (rule p2_add)
  also have "2 powi (k - (?e - 52)) = (of_int (2 ^ j) :: real)"
    unfolding j_def using ek by (intro p2_int) simp
  finally have pk: "(2::real) powi k = of_int (2 ^ j) * U" unfolding U_def .
  have u: "U \<noteq> 0" using p2_pos [of "?e - 52"] unfolding U_def by simp
  have xe: "x = of_int m * (of_int (2 ^ j) * U)" by (simp only: assms(1) pk)
  have "x / U = of_int m * of_int (2 ^ j)" using u by (simp add: xe)
  also have "\<dots> = of_int (m * 2 ^ j)" by simp
  finally have q: "x / U = of_int (m * 2 ^ j)" .
  have r: "rne (x / U) = m * 2 ^ j" unfolding q by (rule rne_of_int)
  have "of_int (m * 2 ^ j) * U = x" using xe by simp
  then have y: "of_int (rne (x / U)) * U = x" unfolding r .
  have "fl x = (let ulp = U; y = of_int (rne (x / ulp)) * ulp
                in if 2 ^ 1024 \<le> \<bar>y\<bar> then (if 0 < x then PInf else NInf) else Fin y)"
    using False unfolding fl_def U_def by (simp only: if_False)
  then show ?thesis using assms(4) unfolding Let_def y by simp
qed

lemma fl_of_int: "\<bar>m\<bar> < 2 ^ 53 \<Longrightarrow> fl (of_int m) = Fin (of_int m)"
proof -
  assume m: "\<bar>m\<bar> < 2 ^ 53"
  have "\<bar>of_int m :: real\<bar> = of_int \<bar>m\<bar>" by simp
  also have "\<dots> < of_int (2 ^ 53)" using m by (simp only: of_int_less_iff)
  also have "\<dots> < 2 ^ 1024" by simp
  finally have "\<bar>of_int m :: real\<bar> < 2 ^ 1024" .
  then show ?thesis using m by (intro fl_exact [where m = m and k = 0]) simp_all
qed

lemma fl_overflow: "2 ^ 1024 \<le> x \<Longrightarrow> fl x = PInf"
proof -
  assume a: "2 ^ 1024 \<le> x"
  then have pos: "0 < x" "x \<noteq> 0" "\<bar>x\<bar> = x"
    using zero_less_power [of "2::real" 1024] by linarith+
  have "(2::real) powi 1023 \<le> 2 ^ 1024" by simp
  then have "2 powi 1023 \<le> \<bar>x\<bar>" using a pos by linarith
  then have e: "expo x = 1023" by (rule expo_top)
  obtain m where m: "m = rne (x / 2 powi (expo x - 52))"
    and f: "fl x = (if 2 ^ 1024 \<le> \<bar>of_int m * (2::real) powi (expo x - 52)\<bar>
                 then (if 0 < x then PInf else NInf)
                 else Fin (of_int m * 2 powi (expo x - 52)))"
    using pos(2) by (rule fl_round)
  have "(2::real) ^ 1024 / 2 powi 971 \<le> x / 2 powi 971" using a by (intro divide_right_mono) simp_all
  moreover have "(2::real) ^ 1024 / 2 powi 971 = of_int (2 ^ 53)" by simp
  ultimately have "of_int (2 ^ 53) \<le> x / 2 powi 971" by simp
  then have "2 ^ 53 \<le> rne (x / 2 powi 971)" by (rule rne_ge_int)
  then have "2 ^ 53 \<le> m" using m e by simp
  then have "(of_int (2 ^ 53) :: real) \<le> of_int m" by (simp only: of_int_le_iff)
  then have "(2::real) ^ 53 * 2 powi 971 \<le> of_int m * 2 powi 971"
    by (intro mult_right_mono) simp_all
  moreover have "(2::real) ^ 53 * 2 powi 971 = 2 ^ 1024" by simp
  ultimately have "2 ^ 1024 \<le> \<bar>of_int m * (2::real) powi 971\<bar>" by linarith
  then show ?thesis using f e pos(1) by simp
qed

lemma fl_overflow_neg: "x \<le> - (2 ^ 1024) \<Longrightarrow> fl x = NInf"
proof -
  assume "x \<le> - (2 ^ 1024)"
  then have "2 ^ 1024 \<le> - x" by simp
  then have "fl (- x) = PInf" by (rule fl_overflow)
  then have "jneg (fl x) = PInf" by (simp only: fl_minus)
  then show ?thesis by (cases "fl x") simp_all
qed

lemma fl_underflow: "\<bar>x\<bar> \<le> 1 / 2 ^ 1075 \<Longrightarrow> fl x = Fin 0"
proof (cases "x = 0")
  case True
  then show ?thesis by (simp add: fl_0)
next
  case False
  assume a: "\<bar>x\<bar> \<le> 1 / 2 ^ 1075"
  have n: "(2::real) powi (- int 1022) = 1 / 2 ^ 1022" by (rule p2_neg)
  have "(1::real) / 2 ^ 1075 < 1 / 2 ^ 1022" by simp
  then have "\<bar>x\<bar> < 2 powi (- 1022)" using a n by simp
  then have e: "expo x = - 1022" by (rule expo_sub)
  have u: "(2::real) powi (expo x - 52) = 1 / 2 ^ 1074"
    using p2_neg [of 1074] e by simp
  have "\<bar>x / (1 / 2 ^ 1074)\<bar> = \<bar>x\<bar> * 2 ^ 1074" by (simp add: abs_mult)
  also have "\<dots> \<le> 1 / 2 ^ 1075 * 2 ^ 1074" using a by (intro mult_right_mono) simp_all
  also have "\<dots> = 1 / 2" by simp
  finally have "rne (x / (1 / 2 ^ 1074)) = 0" by (rule rne_half)
  then show ?thesis using False unfolding fl_def Let_def u by simp
qed

lemma fl_sign: "0 \<le> x \<Longrightarrow> fl x = PInf \<or> (\<exists>y. fl x = Fin y \<and> 0 \<le> y)"
proof (cases "x = 0")
  case True
  then show ?thesis by (simp add: fl_0)
next
  case False
  assume "0 \<le> x"
  then have pos: "0 < x" using False by simp
  obtain m where m: "m = rne (x / 2 powi (expo x - 52))"
    and f: "fl x = (if 2 ^ 1024 \<le> \<bar>of_int m * (2::real) powi (expo x - 52)\<bar>
                 then (if 0 < x then PInf else NInf)
                 else Fin (of_int m * 2 powi (expo x - 52)))"
    using False by (rule fl_round)
  have "0 \<le> x / 2 powi (expo x - 52)" using pos by simp
  then have "0 \<le> m" unfolding m by (rule rne_nonneg)
  then have "0 \<le> of_int m * (2::real) powi (expo x - 52)" by simp
  then show ?thesis using f pos by (cases "2 ^ 1024 \<le> \<bar>of_int m * (2::real) powi (expo x - 52)\<bar>") simp_all
qed

lemma fl_ge:
  assumes "- 1074 \<le> k" "2 powi k \<le> x"
  shows "fl x = PInf \<or> (\<exists>y. fl x = Fin y \<and> 2 powi k \<le> y)"
proof -
  have pos: "0 < x" "x \<noteq> 0" "\<bar>x\<bar> = x" using assms(2) p2_pos [of k] by linarith+
  let ?e = "expo x"
  let ?u = "(2::real) powi (?e - 52)"
  obtain m where m: "m = rne (x / ?u)"
    and f: "fl x = (if 2 ^ 1024 \<le> \<bar>of_int m * ?u\<bar>
                 then (if 0 < x then PInf else NInf) else Fin (of_int m * ?u))"
    using pos(2) by (rule fl_round)
  have u: "0 < ?u" by (rule p2_pos)
  have "2 powi k \<le> of_int m * ?u"
  proof (cases "?e - 52 \<le> k")
    case True
    let ?j = "nat (k - (?e - 52))"
    have "(2::real) powi k = 2 powi ((k - (?e - 52)) + (?e - 52))" by simp
    also have "\<dots> = 2 powi (k - (?e - 52)) * ?u" by (rule p2_add)
    also have "2 powi (k - (?e - 52)) = (of_int (2 ^ ?j) :: real)" using True by (intro p2_int) simp
    finally have pk: "(2::real) powi k = of_int (2 ^ ?j) * ?u" .
    then have "of_int (2 ^ ?j) * ?u \<le> x" using assms(2) by simp
    then have "of_int (2 ^ ?j) \<le> x / ?u" using u by (simp add: pos_le_divide_eq)
    then have "2 ^ ?j \<le> m" unfolding m by (rule rne_ge_int)
    then have "(of_int (2 ^ ?j) :: real) \<le> of_int m" by (simp only: of_int_le_iff)
    then have "of_int (2 ^ ?j) * ?u \<le> of_int m * ?u" using u by (intro mult_right_mono) simp_all
    then show ?thesis unfolding pk .
  next
    case False
    then have "- 1022 < ?e" using assms(1) by simp
    then have "\<not> \<bar>x\<bar> < 2 powi (- 1022)" using expo_sub [of x] by auto
    then have "2 powi ?e \<le> \<bar>x\<bar>" by (intro expo_lower) simp
    then have x: "2 powi ?e \<le> x" using pos by simp
    have "(2::real) powi ?e = 2 powi (52 + (?e - 52))" by simp
    also have "\<dots> = 2 powi 52 * ?u" by (rule p2_add)
    also have "(2::real) powi 52 = of_int (2 ^ 52)" by simp
    finally have pe: "(2::real) powi ?e = of_int (2 ^ 52) * ?u" .
    then have "of_int (2 ^ 52) * ?u \<le> x" using x by simp
    then have "of_int (2 ^ 52) \<le> x / ?u" using u by (simp add: pos_le_divide_eq)
    then have "2 ^ 52 \<le> m" unfolding m by (rule rne_ge_int)
    then have "(of_int (2 ^ 52) :: real) \<le> of_int m" by (simp only: of_int_le_iff)
    then have "of_int (2 ^ 52) * ?u \<le> of_int m * ?u" using u by (intro mult_right_mono) simp_all
    then have "2 powi ?e \<le> of_int m * ?u" unfolding pe .
    moreover have "(2::real) powi k \<le> 2 powi ?e" using False by (intro p2_mono) simp
    ultimately show ?thesis by linarith
  qed
  then show ?thesis using f pos(1)
    by (cases "2 ^ 1024 \<le> \<bar>of_int m * ?u\<bar>") simp_all
qed

lemma expo_unique:
  assumes "2 powi e \<le> \<bar>x\<bar>" "\<bar>x\<bar> < 2 powi (e + 1)" "- 1022 \<le> e" "e \<le> 1023"
  shows "expo x = e"
proof -
  have "(2::real) powi (e + 1) \<le> 2 powi 1024" using assms(4) by (intro p2_mono) simp
  then have "\<bar>x\<bar> < 2 powi 1024" using assms(2) by linarith
  then have u: "\<bar>x\<bar> < 2 powi (expo x + 1)" by (rule expo_upper)
  have "(2::real) powi (- 1022) \<le> 2 powi e" using assms(3) by (intro p2_mono) simp
  then have "2 powi (- 1022) \<le> \<bar>x\<bar>" using assms(1) by linarith
  then have l: "2 powi (expo x) \<le> \<bar>x\<bar>" by (rule expo_lower)
  have "(2::real) powi e < 2 powi (expo x + 1)" using assms(1) u by linarith
  then have "e < expo x + 1" by (rule p2_less)
  moreover have "(2::real) powi (expo x) < 2 powi (e + 1)" using assms(2) l by linarith
  then have "expo x < e + 1" by (rule p2_less)
  ultimately show ?thesis by simp
qed

lemma fl_1: "fl 1 = Fin 1"
  using fl_of_int [of 1] by simp

lemma fl_m1: "fl (- 1) = Fin (- 1)"
  using fl_of_int [of "- 1"] by simp

lemma fl_numeral: "numeral n < (2::int) ^ 53 \<Longrightarrow> fl (numeral n) = Fin (numeral n)"
  using fl_of_int [of "numeral n"] by simp

lemma fl_neg_numeral: "numeral n < (2::int) ^ 53 \<Longrightarrow> fl (- numeral n) = Fin (- numeral n)"
  using fl_of_int [of "- numeral n"] by simp

lemmas fl_simps = fl_0 fl_1 fl_m1 fl_numeral fl_neg_numeral

lemma sqrt_9: "sqrt 9 = 3"
  by (rule real_sqrt_unique) simp_all

lemma fl_095: "fl 0.95 = Fin (8556839292003942 / 2 ^ 53)"
proof -
  have e: "expo 0.95 = - 1" by (rule expo_unique) (simp_all add: power_int_minus)
  have u: "(2::real) powi (- 1 - 52) = 1 / 2 ^ 53" using p2_neg [of 53] by simp
  have "rne (0.95 / (1 / 2 ^ 53)) = 8556839292003942" by (simp add: rne_def Let_def)
  then show ?thesis unfolding fl_def Let_def e u by simp
qed

lemma fl_062: "fl 0.62 = Fin (5584463537939415 / 2 ^ 53)"
proof -
  have e: "expo 0.62 = - 1" by (rule expo_unique) (simp_all add: power_int_minus)
  have u: "(2::real) powi (- 1 - 52) = 1 / 2 ^ 53" using p2_neg [of 53] by simp
  have "rne (0.62 / (1 / 2 ^ 53)) = 5584463537939415" by (simp add: rne_def Let_def)
  then show ?thesis unfolding fl_def Let_def e u by simp
qed

lemma default_config_eq:
  "default_config =
     \<lparr>DISTANCE_THRESHOLD = Fin (8556839292003942 / 2 ^ 53),
      COSINE_THRESHOLD = Fin (5584463537939415 / 2 ^ 53), REQUIRED_VARIANT_MATCHES = Fin 1\<rparr>"
  by (simp only: default_config_def fl_095 fl_062 fl_1)

lemma fl_faint: "fl faint = Fin faint"
proof -
  have "faint = of_int 1 * 2 powi (- int 600)" by (simp only: p2_neg faint_def)
  moreover have "\<bar>faint\<bar> < 2 ^ 1024" by (simp add: faint_def)
  ultimately show ?thesis by (intro fl_exact [where m = 1 and k = "- int 600"]) simp_all
qed

lemma fl_faint_sq: "fl (faint * faint) = Fin 0"
  by (rule fl_underflow) (simp add: faint_def)

lemma faint_pos: "0 < faint"
  by (simp add: faint_def)

lemmas faint_simps = fl_faint fl_faint_sq power2_eq_square

section \<open>Properties of the comparisons\<close>

lemma jle_refl: "x \<noteq> NaN \<Longrightarrow> jle x x"
  by (cases x) simp_all

lemma jle_trans: "jle x y \<Longrightarrow> jle y z \<Longrightarrow> jle x z"
  by (cases x; cases y; cases z) simp_all

lemma jle_antisym: "jle x y \<Longrightarrow> jle y x \<Longrightarrow> x = y"
  by (cases x; cases y) simp_all

lemma jlt_imp_jle: "jlt x y \<Longrightarrow> jle x y"
  by (cases x; cases y) simp_all

lemma not_jlt_imp_jle: "\<not> jlt x y \<Longrightarrow> x \<noteq> NaN \<Longrightarrow> y \<noteq> NaN \<Longrightarrow> jle y x"
  by (cases x; cases y) simp_all

lemma jle_top: "d \<noteq> NaN \<Longrightarrow> jle d PInf"
  by (cases d) simp_all

lemma jle_bot: "d \<noteq> NaN \<Longrightarrow> jle NInf d"
  by (cases d) simp_all

lemma jgt_NaN: "\<not> jgt NaN x"
  by (cases x) (simp_all add: jgt_def)

text \<open>A running minimum and a running maximum, as the loops keep them.\<close>

lemma running_min_mem:
  "foldl (\<lambda>m d. if jlt d m then d else m) m ds = m
   \<or> foldl (\<lambda>m d. if jlt d m then d else m) m ds \<in> set ds"
proof (induction ds arbitrary: m)
  case Nil
  then show ?case by simp
next
  case (Cons d ds)
  show ?case using Cons.IH [of "if jlt d m then d else m"] by (auto split: if_splits)
qed

lemma running_min:
  "NaN \<notin> set ds \<Longrightarrow> m \<noteq> NaN \<Longrightarrow>
   (foldl (\<lambda>m d. if jlt d m then d else m) m ds = m
      \<or> foldl (\<lambda>m d. if jlt d m then d else m) m ds \<in> set ds)
   \<and> jle (foldl (\<lambda>m d. if jlt d m then d else m) m ds) m
   \<and> (\<forall>d\<in>set ds. jle (foldl (\<lambda>m d. if jlt d m then d else m) m ds) d)"
proof (induction ds arbitrary: m)
  case Nil
  then show ?case by (simp add: jle_refl)
next
  case (Cons d ds)
  let ?m' = "if jlt d m then d else m"
  let ?r = "foldl (\<lambda>m d. if jlt d m then d else m) ?m' ds"
  have d: "d \<noteq> NaN" and ds: "NaN \<notin> set ds" using Cons.prems(1) by auto
  have m': "?m' \<noteq> NaN" using d Cons.prems(2) by simp
  have le_m: "jle ?m' m" using jlt_imp_jle [of d m] jle_refl [OF Cons.prems(2)] by simp
  have le_d: "jle ?m' d"
    using not_jlt_imp_jle [OF _ d Cons.prems(2)] jle_refl [OF d] by auto
  note ih = Cons.IH [OF ds m']
  have r: "foldl (\<lambda>m d. if jlt d m then d else m) m (d # ds) = ?r" by simp
  have 1: "?r = m \<or> ?r \<in> set (d # ds)" using ih by (auto split: if_splits)
  have 2: "jle ?r m" using ih le_m jle_trans by blast
  have 3: "jle ?r d" using ih le_d jle_trans by blast
  show ?case unfolding r using 1 2 3 ih by auto
qed

lemma running_max:
  "NaN \<notin> set ds \<Longrightarrow> x \<noteq> NaN \<Longrightarrow>
   (foldl (\<lambda>x s. if jgt s x then s else x) x ds = x
      \<or> foldl (\<lambda>x s. if jgt s x then s else x) x ds \<in> set ds)
   \<and> jle x (foldl (\<lambda>x s. if jgt s x then s else x) x ds)
   \<and> (\<forall>d\<in>set ds. jle d (foldl (\<lambda>x s. if jgt s x then s else x) x ds))"
proof (induction ds arbitrary: x)
  case Nil
  then show ?case by (simp add: jle_refl)
next
  case (Cons d ds)
  let ?x' = "if jgt d x then d else x"
  let ?r = "foldl (\<lambda>x s. if jgt s x then s else x) ?x' ds"
  have d: "d \<noteq> NaN" and ds: "NaN \<notin> set ds" using Cons.prems(1) by auto
  have x': "?x' \<noteq> NaN" using d Cons.prems(2) by simp
  have ge_x: "jle x ?x'"
    using jlt_imp_jle [of x d] jle_refl [OF Cons.prems(2)] by (simp add: jgt_def)
  have ge_d: "jle d ?x'"
    using not_jlt_imp_jle [OF _ Cons.prems(2) d] jle_refl [OF d] by (auto simp: jgt_def)
  note ih = Cons.IH [OF ds x']
  have r: "foldl (\<lambda>x s. if jgt s x then s else x) x (d # ds) = ?r" by simp
  have 1: "?r = x \<or> ?r \<in> set (d # ds)" using ih by (auto split: if_splits)
  have 2: "jle x ?r" using ih ge_x jle_trans by blast
  have 3: "jle d ?r" using ih ge_d jle_trans by blast
  show ?case unfolding r using 1 2 3 ih by auto
qed

lemma min_of_run:
  assumes "ds \<noteq> []" "NaN \<notin> set ds" "m \<noteq> NaN" "\<forall>d\<in>set ds. jle d m"
  shows "is_min (foldl (\<lambda>m d. if jlt d m then d else m) m ds) ds"
proof -
  let ?r = "foldl (\<lambda>m d. if jlt d m then d else m) m ds"
  have rm: "(?r = m \<or> ?r \<in> set ds) \<and> (\<forall>d\<in>set ds. jle ?r d)"
    using running_min [OF assms(2,3)] by simp
  obtain d where d: "d \<in> set ds" using assms(1) by (cases ds) auto
  have "?r \<in> set ds"
  proof (cases "?r = m")
    case True
    then have "d = m" using rm d assms(4) jle_antisym by metis
    then show ?thesis using True d by simp
  next
    case False
    then show ?thesis using rm by simp
  qed
  then show ?thesis using rm by (simp add: is_min_def)
qed

lemma max_of_run:
  assumes "ds \<noteq> []" "NaN \<notin> set ds" "x \<noteq> NaN" "\<forall>d\<in>set ds. jle x d"
  shows "is_max (foldl (\<lambda>x s. if jgt s x then s else x) x ds) ds"
proof -
  let ?r = "foldl (\<lambda>x s. if jgt s x then s else x) x ds"
  have rm: "(?r = x \<or> ?r \<in> set ds) \<and> (\<forall>d\<in>set ds. jle d ?r)"
    using running_max [OF assms(2,3)] by simp
  obtain d where d: "d \<in> set ds" using assms(1) by (cases ds) auto
  have "?r \<in> set ds"
  proof (cases "?r = x")
    case True
    then have "d = x" using rm d assms(4) jle_antisym by metis
    then show ?thesis using True d by simp
  next
    case False
    then show ?thesis using rm by simp
  qed
  then show ?thesis using rm by (simp add: is_max_def jge_def)
qed

lemma min_of_sweep:
  assumes "ds \<noteq> []" "NaN \<notin> set ds"
  shows "is_min (foldl (\<lambda>m d. if jlt d m then d else m) PInf ds) ds"
proof (rule min_of_run [OF assms])
  show "PInf \<noteq> NaN" by simp
  show "\<forall>d\<in>set ds. jle d PInf" using assms(2) jle_top by metis
qed

lemma max_of_sweep:
  assumes "ds \<noteq> []" "NaN \<notin> set ds"
  shows "is_max (foldl (\<lambda>x s. if jgt s x then s else x) NInf ds) ds"
proof (rule max_of_run [OF assms])
  show "NInf \<noteq> NaN" by simp
  show "\<forall>d\<in>set ds. jle NInf d" using assms(2) jle_bot by metis
qed

lemma running_min_numbers:
  "foldl (\<lambda>m d. if jlt d m then d else m) m ds
   = foldl (\<lambda>m d. if jlt d m then d else m) m (numbers ds)"
  by (induction ds arbitrary: m) (simp_all add: numbers_def)

lemma running_max_numbers:
  "foldl (\<lambda>x s. if jgt s x then s else x) x ds
   = foldl (\<lambda>x s. if jgt s x then s else x) x (numbers ds)"
  by (induction ds arbitrary: x) (simp_all add: numbers_def jgt_NaN)

lemma numbers_no_NaN: "NaN \<notin> set (numbers ds)"
  by (simp add: numbers_def)

lemma numbers_id: "NaN \<notin> set ds \<Longrightarrow> numbers ds = ds"
  by (induction ds) (auto simp: numbers_def)

section \<open>Properties of the vector utilities\<close>

text \<open>The loops over the indices of \<^verbatim>\<open>a\<close>, for arrays of one length, as folds over the pairs.\<close>

lemma idx_pairs:
  "length a = length b \<Longrightarrow> map (\<lambda>i. (idx a i, idx b i)) [0..<length a] = zip a b"
  by (rule nth_equalityI) (simp_all add: idx_def)

lemma foldl_idx_zip:
  assumes "length a = length b"
  shows "foldl (\<lambda>acc i. g acc (idx a i) (idx b i)) s [0..<length a]
         = foldl (\<lambda>acc p. g acc (fst p) (snd p)) s (zip a b)"
proof -
  have "foldl (\<lambda>acc p. g acc (fst p) (snd p)) s (map (\<lambda>i. (idx a i, idx b i)) [0..<length a])
        = foldl (\<lambda>acc i. g acc (idx a i) (idx b i)) s [0..<length a]"
    by (simp add: foldl_map)
  then show ?thesis using idx_pairs [OF assms] by simp
qed

lemma cosineSimilarity_zip:
  "length a = length b \<Longrightarrow>
   cosineSimilarity a b = foldl (\<lambda>dot p. jadd dot (jmul (fst p) (snd p))) (Fin 0) (zip a b)"
  unfolding cosineSimilarity_def
  by (rule foldl_idx_zip [where g = "\<lambda>acc x y. jadd acc (jmul x y)"])

lemma euclideanDistance_zip:
  "length a = length b \<Longrightarrow>
   euclideanDistance a b
     = jsqrt (foldl (\<lambda>sum p. jadd sum (jpow2 (jsub (fst p) (snd p)))) (Fin 0) (zip a b))"
  unfolding euclideanDistance_def
  by (rule arg_cong [where f = jsqrt])
     (rule foldl_idx_zip [where g = "\<lambda>acc x y. jadd acc (jpow2 (jsub x y))"])

text \<open>
  Two vectors of one length that are apart in an entry are never at a distance of at most
  zero.
\<close>

lemma from0_fl: "0 \<le> x \<Longrightarrow> from0 (fl x)"
  using fl_sign [of x] by (auto simp: from0_def)

lemma above0_fl: "1 / 2 ^ 1074 \<le> x \<Longrightarrow> above0 (fl x)"
proof -
  assume "1 / 2 ^ 1074 \<le> x"
  then have "2 powi (- int 1074) \<le> x" by (simp only: p2_neg)
  then have "2 powi (- 1074) \<le> x" by simp
  then have "fl x = PInf \<or> (\<exists>y. fl x = Fin y \<and> 2 powi (- 1074) \<le> y)" by (intro fl_ge) simp_all
  moreover have "(2::real) powi (- 1074) = 1 / 2 ^ 1074" using p2_neg [of 1074] by simp
  ultimately show ?thesis by (auto simp: above0_def)
qed

lemma from0_sq: "from0 (jpow2 z)"
  by (cases z) (simp_all add: from0_def from0_fl [unfolded from0_def])

lemma fl_far:
  assumes "1 / 2 ^ 537 \<le> \<bar>x\<bar>"
  shows "fl x = PInf \<or> fl x = NInf \<or> (\<exists>y. fl x = Fin y \<and> 1 / 2 ^ 537 \<le> \<bar>y\<bar>)"
proof -
  have p: "(2::real) powi (- 537) = 1 / 2 ^ 537" using p2_neg [of 537] by simp
  have pos: "fl z = PInf \<or> (\<exists>y. fl z = Fin y \<and> 1 / 2 ^ 537 \<le> y)" if "1 / 2 ^ 537 \<le> z" for z
  proof -
    have "2 powi (- 537) \<le> z" using that p by simp
    then have "fl z = PInf \<or> (\<exists>y. fl z = Fin y \<and> 2 powi (- 537) \<le> y)" by (intro fl_ge) simp_all
    then show ?thesis unfolding p .
  qed
  show ?thesis
  proof (cases "0 \<le> x")
    case True
    then have "1 / 2 ^ 537 \<le> x" using assms by simp
    then show ?thesis using pos [of x] by fastforce
  next
    case False
    then have "1 / 2 ^ 537 \<le> - x" using assms by simp
    then have "fl (- x) = PInf \<or> (\<exists>y. fl (- x) = Fin y \<and> 1 / 2 ^ 537 \<le> y)" by (rule pos)
    then have "jneg (fl x) = PInf \<or> (\<exists>y. jneg (fl x) = Fin y \<and> 1 / 2 ^ 537 \<le> y)"
      by (simp only: fl_minus)
    then show ?thesis by (cases "fl x") fastforce+
  qed
qed

lemma sq_far:
  fixes y :: real
  assumes "1 / 2 ^ 537 \<le> \<bar>y\<bar>"
  shows "1 / 2 ^ 1074 \<le> y ^ 2"
proof -
  have "(1 / 2 ^ 537) ^ 2 \<le> \<bar>y\<bar> ^ 2" using assms by (intro power_mono) simp_all
  moreover have "((1::real) / 2 ^ 537) ^ 2 = 1 / 2 ^ 1074" by (simp add: power_divide)
  ultimately show ?thesis by simp
qed

lemma above0_sqdiff: "apart x y \<Longrightarrow> above0 (jpow2 (jsub x y))"
proof (cases x; cases y)
  fix a b
  assume x: "x = Fin a" and y: "y = Fin b" and "apart x y"
  then have "1 / 2 ^ 537 \<le> \<bar>a + - b\<bar>" by (simp add: apart_def)
  then consider "fl (a + - b) = PInf" | "fl (a + - b) = NInf"
    | d where "fl (a + - b) = Fin d" "1 / 2 ^ 537 \<le> \<bar>d\<bar>"
    using fl_far [of "a + - b"] by blast
  then show ?thesis
  proof cases
    case 3
    have "above0 (fl (d ^ 2))" by (rule above0_fl [OF sq_far [OF 3(2)]])
    then show ?thesis using x y 3(1) by (simp add: jsub_def)
  qed (simp_all add: x y jsub_def above0_def)
qed (simp_all add: above0_def jsub_def)

lemma above0_add_l: "above0 a \<Longrightarrow> from0 b \<Longrightarrow> above0 (jadd a b)"
proof (cases a; cases b)
  fix r s
  assume "a = Fin r" "b = Fin s" "above0 a" "from0 b"
  then show ?thesis using above0_fl [of "r + s"] by (simp add: above0_def from0_def)
qed (simp_all add: above0_def from0_def)

lemma above0_add_r: "from0 a \<Longrightarrow> above0 b \<Longrightarrow> above0 (jadd a b)"
proof (cases a; cases b)
  fix r s
  assume "a = Fin r" "b = Fin s" "from0 a" "above0 b"
  then show ?thesis using above0_fl [of "r + s"] by (simp add: above0_def from0_def)
qed (simp_all add: above0_def from0_def)

lemma from0_add: "from0 a \<Longrightarrow> from0 b \<Longrightarrow> from0 (jadd a b)"
proof (cases a; cases b)
  fix r s
  assume "a = Fin r" "b = Fin s" "from0 a" "from0 b"
  then show ?thesis using from0_fl [of "r + s"] by (simp add: from0_def)
qed (simp_all add: from0_def)

lemma sqdiff_above0_keep:
  "above0 acc \<Longrightarrow>
   above0 (foldl (\<lambda>sum p. jadd sum (jpow2 (jsub (fst p) (snd p)))) acc ps)"
  by (induction ps arbitrary: acc) (simp_all add: above0_add_l from0_sq)

lemma sqdiff_above0:
  "length a = length b \<Longrightarrow> i < length a \<Longrightarrow> apart (a ! i) (b ! i) \<Longrightarrow> from0 acc \<Longrightarrow>
   above0 (foldl (\<lambda>sum p. jadd sum (jpow2 (jsub (fst p) (snd p)))) acc (zip a b))"
proof (induction a b arbitrary: acc i rule: list_induct2)
  case Nil
  then show ?case by simp
next
  case (Cons x xs y ys)
  show ?case
  proof (cases i)
    case 0
    then have "above0 (jadd acc (jpow2 (jsub x y)))"
      using Cons.prems above0_sqdiff above0_add_r by simp
    then show ?thesis using sqdiff_above0_keep by simp
  next
    case (Suc j)
    then have "j < length xs" "apart (xs ! j) (ys ! j)" using Cons.prems by simp_all
    moreover have "from0 (jadd acc (jpow2 (jsub x y)))"
      using Cons.prems(3) from0_sq from0_add by simp
    ultimately show ?thesis using Cons.IH by simp
  qed
qed

lemma above0_sqrt: "above0 x \<Longrightarrow> above0 (jsqrt x)"
proof (cases x)
  case (Fin a)
  assume "above0 x"
  then have a: "1 / 2 ^ 1074 \<le> a" using Fin by (simp add: above0_def)
  have "(0::real) < 1 / 2 ^ 1074" by simp
  then have pos: "0 < a" using a by linarith
  have "sqrt (1 / 2 ^ 1074) \<le> sqrt a" using a by (simp only: real_sqrt_le_iff)
  moreover have "sqrt (1 / 2 ^ 1074) = 1 / 2 ^ 537"
    by (rule real_sqrt_unique) (simp_all add: power_divide)
  moreover have "(1::real) / 2 ^ 1074 \<le> 1 / 2 ^ 537" by simp
  ultimately have "1 / 2 ^ 1074 \<le> sqrt a" by linarith
  then have "above0 (fl (sqrt a))" by (rule above0_fl)
  then show ?thesis using Fin pos by simp
qed (simp_all add: above0_def)

lemma above0_not_le0: "above0 x \<Longrightarrow> \<not> jle x (Fin 0)"
proof (cases x)
  case (Fin a)
  assume "above0 x"
  then have "1 / 2 ^ 1074 \<le> a" using Fin by (simp add: above0_def)
  moreover have "(0::real) < 1 / 2 ^ 1074" by simp
  ultimately have "0 < a" by linarith
  then show ?thesis using Fin by simp
qed (simp_all add: above0_def)

lemma distance_above0:
  "length a = length b \<Longrightarrow> i < length a \<Longrightarrow> apart (a ! i) (b ! i) \<Longrightarrow>
   \<not> jle (euclideanDistance a b) (Fin 0)"
  using sqdiff_above0 [of a b i "Fin 0"] above0_sqrt above0_not_le0
  by (simp add: euclideanDistance_zip from0_def)

lemma roundoff_pos: "0 < roundoff"
  by (simp add: roundoff_def)

lemma fl_rel0:
  assumes "x = 0 \<or> 1 / 2 ^ 1022 \<le> \<bar>x\<bar>" "\<bar>x\<bar> \<le> 2 ^ 1023"
  shows "\<exists>d. \<bar>d\<bar> \<le> roundoff \<and> fl x = Fin (x * (1 + d))"
proof (cases "x = 0")
  case True
  then show ?thesis using roundoff_pos by (intro exI [of _ 0]) (simp add: fl_0)
next
  case False
  then show ?thesis using fl_rel [of x] assms by (simp add: roundoff_def)
qed

lemma rel_bounds:
  fixes a d u :: real
  assumes "0 \<le> a" "\<bar>d\<bar> \<le> u"
  shows "a * (1 - u) \<le> a * (1 + d)" "a * (1 + d) \<le> a * (1 + u)"
  using assms by (auto intro!: mult_left_mono)

lemma lo_step:
  fixes S q u K :: real
  assumes "0 \<le> S" "0 \<le> q" "0 \<le> u" "0 \<le> K"
  shows "(S + q) * (1 - (K + 2) * u) \<le> (S * (1 - (K + 1) * u) + q * (1 - u)) * (1 - u)"
proof -
  have "(S * (1 - (K + 1) * u) + q * (1 - u)) * (1 - u) - (S + q) * (1 - (K + 2) * u)
        = S * ((K + 1) * (u * u)) + q * (K * u + u * u)"
    by (simp add: algebra_simps)
  moreover have "0 \<le> S * ((K + 1) * (u * u)) + q * (K * u + u * u)"
    using assms by (intro add_nonneg_nonneg mult_nonneg_nonneg) simp_all
  ultimately show ?thesis by linarith
qed

lemma up_step:
  fixes S q u K :: real
  assumes "0 \<le> S" "0 \<le> q" "0 \<le> u" "0 \<le> K" "(2 * K + 1) * u \<le> 1" "u \<le> 1"
  shows "(S * (1 + (2 * K + 1) * u) + q * (1 + u)) * (1 + u) \<le> (S + q) * (1 + (2 * K + 3) * u)"
proof -
  have "(S + q) * (1 + (2 * K + 3) * u) - (S * (1 + (2 * K + 1) * u) + q * (1 + u)) * (1 + u)
        = S * (u * (1 - (2 * K + 1) * u)) + q * (u * ((2 * K + 1) - u))"
    by (simp add: algebra_simps)
  moreover have "0 \<le> S * (u * (1 - (2 * K + 1) * u)) + q * (u * ((2 * K + 1) - u))"
    using assms by (intro add_nonneg_nonneg mult_nonneg_nonneg) simp_all
  ultimately show ?thesis by linarith
qed

lemma ratio_upper:
  fixes A B C u N :: real
  assumes A: "0 \<le> A" "A \<le> 1 + 3 * u" and B: "1 - 2 * u \<le> B" and C: "1 - (N + 1) * u \<le> C"
    and u: "0 \<le> u" and N: "0 \<le> N" and s: "(N + 5) * u \<le> 1 / 8"
  shows "A / (B * C) \<le> 1 + 2 * (N + 5) * u"
proof -
  define p where "p = (N + 5) * u"
  define q where "q = (N + 3) * u"
  have nu: "0 \<le> N * u" using u N by simp
  have pe: "p = N * u + 5 * u" and qe: "q = N * u + 3 * u"
    by (simp_all add: p_def q_def algebra_simps)
  have p8: "p \<le> 1 / 8" using s by (simp add: p_def)
  have q0: "0 \<le> q" using nu u qe by linarith
  have p0: "0 \<le> p" using nu u pe by linarith
  have pq: "p * q \<le> 1 / 8 * q" using p8 q0 by (rule mult_right_mono)
  have b: "0 < 1 - 2 * u" using pe p8 nu u by linarith
  have c: "0 < 1 - (N + 1) * u"
  proof -
    have "(N + 1) * u = N * u + u" by (simp add: algebra_simps)
    then show ?thesis using pe p8 nu u by linarith
  qed
  have bc: "(1 - 2 * u) * (1 - (N + 1) * u) \<le> B * C"
    using B C b c by (intro mult_mono) simp_all
  have "(1 - 2 * u) * (1 - (N + 1) * u) - (1 - q) = 2 * u * ((N + 1) * u)"
    by (simp add: q_def algebra_simps)
  moreover have "0 \<le> 2 * u * ((N + 1) * u)" using u N by simp
  ultimately have h1: "1 - q \<le> (1 - 2 * u) * (1 - (N + 1) * u)" by linarith
  have pos: "0 < 1 - q" using qe pe p8 u by linarith
  have le: "1 - q \<le> B * C" using h1 bc by linarith
  have "A / (B * C) \<le> (1 + 3 * u) / (1 - q)"
    using A le pos by (intro frac_le) simp_all
  also have "\<dots> \<le> 1 + 2 * p"
  proof -
    have "(1 + 2 * p) * (1 - q) = 1 - q + 2 * p - 2 * (p * q)" by (simp add: algebra_simps)
    then have "1 + 3 * u \<le> (1 + 2 * p) * (1 - q)" using pq pe qe nu u by linarith
    then show ?thesis using pos by (simp add: pos_divide_le_eq)
  qed
  finally show ?thesis by (simp add: p_def algebra_simps)
qed

lemma ratio_lower:
  fixes A B C u N :: real
  assumes A: "1 - 2 * u \<le> A" and B: "0 < B" "B \<le> 1 + 3 * u"
    and C: "0 < C" "C \<le> 1 + (2 * N + 1) * u"
    and u: "0 \<le> u" and N: "0 \<le> N" and s: "(N + 5) * u \<le> 1 / 8"
  shows "1 - 2 * (N + 5) * u \<le> A / (B * C)"
proof -
  define p where "p = (N + 5) * u"
  define r where "r = (2 * N + 5) * u"
  have nu: "0 \<le> N * u" using u N by simp
  have pe: "p = N * u + 5 * u" and re: "r = 2 * (N * u) + 5 * u"
    by (simp_all add: p_def r_def algebra_simps)
  have p8: "p \<le> 1 / 8" using s by (simp add: p_def)
  have p0: "0 \<le> p" using nu u pe by linarith
  have r0: "0 \<le> r" using nu u re by linarith
  have bc0: "0 < B * C" using B(1) C(1) by simp
  have bc: "B * C \<le> (1 + 3 * u) * (1 + (2 * N + 1) * u)"
    using B C u N by (intro mult_mono) simp_all
  have "(1 + r) - (1 + 3 * u) * (1 + (2 * N + 1) * u) = u * (1 - 3 * ((2 * N + 1) * u))"
    by (simp add: r_def algebra_simps)
  moreover have "0 \<le> u * (1 - 3 * ((2 * N + 1) * u))"
  proof -
    have "(2 * N + 1) * u = 2 * (N * u) + u" by (simp add: algebra_simps)
    then have "0 \<le> 1 - 3 * ((2 * N + 1) * u)" using pe p8 nu u by linarith
    then show ?thesis using u by simp
  qed
  ultimately have h: "B * C \<le> 1 + r" using bc by linarith
  have "(1 - 2 * p) * (B * C) \<le> (1 - 2 * p) * (1 + r)"
    using h p8 by (intro mult_left_mono) simp_all
  also have "\<dots> = 1 + r - 2 * p - 2 * (p * r)" by (simp add: algebra_simps)
  also have "\<dots> \<le> 1 - 2 * u"
  proof -
    have "0 \<le> p * r" using p0 r0 by simp
    then show ?thesis using pe re nu u by linarith
  qed
  finally have "(1 - 2 * p) * (B * C) \<le> A" using A by linarith
  then have "1 - 2 * p \<le> A / (B * C)" using bc0 by (simp add: pos_le_divide_eq)
  then show ?thesis by (simp add: p_def algebra_simps)
qed

lemma sq_range:
  fixes x :: real
  assumes "x = 0 \<or> 1 / 2 ^ 500 \<le> \<bar>x\<bar>" "\<bar>x\<bar> \<le> 2 ^ 500"
  shows "0 \<le> x * x" "x * x = 0 \<or> 1 / 2 ^ 1000 \<le> x * x" "x * x \<le> 2 ^ 1000"
proof -
  have e: "x * x = \<bar>x\<bar> * \<bar>x\<bar>" by simp
  show "0 \<le> x * x" by simp
  have "\<bar>x\<bar> * \<bar>x\<bar> \<le> 2 ^ 500 * 2 ^ 500" using assms(2) by (intro mult_mono) simp_all
  then show "x * x \<le> 2 ^ 1000" unfolding e by simp
  show "x * x = 0 \<or> 1 / 2 ^ 1000 \<le> x * x"
  proof (cases "x = 0")
    case True
    then show ?thesis by simp
  next
    case False
    then have "1 / 2 ^ 500 \<le> \<bar>x\<bar>" using assms(1) by simp
    then have "(1 / 2 ^ 500) * (1 / 2 ^ 500) \<le> \<bar>x\<bar> * \<bar>x\<bar>" by (intro mult_mono) simp_all
    then show ?thesis unfolding e by simp
  qed
qed

lemma sumsq_step:
  fixes S a x :: real and k :: nat
  assumes lo: "S * (1 - (real k + 1) * roundoff) \<le> a"
    and hi: "a \<le> S * (1 + (2 * real k + 1) * roundoff)"
    and S: "0 \<le> S" "S = 0 \<or> 1 / 2 ^ 1000 \<le> S" "S \<le> real k * 2 ^ 1000"
    and x: "x = 0 \<or> 1 / 2 ^ 500 \<le> \<bar>x\<bar>" "\<bar>x\<bar> \<le> 2 ^ 500"
    and k: "k < 2 ^ 20"
  shows "\<exists>a'. jadd (Fin a) (jmul (Fin x) (Fin x)) = Fin a'
           \<and> (S + x * x) * (1 - (real (Suc k) + 1) * roundoff) \<le> a'
           \<and> a' \<le> (S + x * x) * (1 + (2 * real (Suc k) + 1) * roundoff)"
proof -
  define u where "u = roundoff"
  define K where "K = real k"
  define q where "q = x * x"
  have u: "0 \<le> u" "u \<le> 1" "u = 1 / 2 ^ 53" by (simp_all add: u_def roundoff_def)
  have K: "0 \<le> K" "K \<le> 2 ^ 20"
  proof -
    show "0 \<le> K" by (simp add: K_def)
    have "real k \<le> real (2 ^ 20)" using k by (simp only: of_nat_le_iff)
    then show "K \<le> 2 ^ 20" by (simp add: K_def)
  qed
  have Ku: "K * u \<le> 2 ^ 20 * u" using K(2) u(1) by (rule mult_right_mono)
  have small: "2 ^ 20 * u \<le> 1 / 2 ^ 33" by (simp add: u(3))
  have Ku0: "0 \<le> K * u" using K(1) u(1) by simp
  have n1: "(1::real) / 2 ^ 33 \<le> 1 / 8" by simp
  have n2: "u \<le> 1 / 8" by (simp add: u(3))
  have e1: "(K + 1) * u = K * u + u" and e2: "(2 * K + 1) * u = 2 * (K * u) + u"
    by (simp_all add: algebra_simps)
  have c1: "(K + 1) * u \<le> 1 / 2" "(2 * K + 1) * u \<le> 1 / 2" "(2 * K + 1) * u \<le> 1"
    unfolding e1 e2 using Ku small Ku0 n1 n2 by linarith+
  have q: "0 \<le> q" "q = 0 \<or> 1 / 2 ^ 1000 \<le> q" "q \<le> 2 ^ 1000"
    unfolding q_def using sq_range [OF x] by blast+
  have "\<exists>d. \<bar>d\<bar> \<le> roundoff \<and> fl q = Fin (q * (1 + d))"
  proof (rule fl_rel0)
    have "(1::real) / 2 ^ 1022 \<le> 1 / 2 ^ 1000" by simp
    then show "q = 0 \<or> 1 / 2 ^ 1022 \<le> \<bar>q\<bar>" using q by auto
    have "(2::real) ^ 1000 \<le> 2 ^ 1023" by simp
    then show "\<bar>q\<bar> \<le> 2 ^ 1023" using q by simp
  qed
  then obtain d1 where d1: "\<bar>d1\<bar> \<le> u" "fl q = Fin (q * (1 + d1))" unfolding u_def by blast
  define p where "p = q * (1 + d1)"
  have p: "q * (1 - u) \<le> p" "p \<le> q * (1 + u)"
    unfolding p_def using rel_bounds [OF q(1) d1(1)] by blast+
  define t where "t = a + p"
  have lo': "S * (1 - (K + 1) * u) \<le> a" and hi': "a \<le> S * (1 + (2 * K + 1) * u)"
    using lo hi by (simp_all add: u_def K_def)
  have tlo: "S * (1 - (K + 1) * u) + q * (1 - u) \<le> t" using lo' p(1) by (simp add: t_def)
  have thi: "t \<le> S * (1 + (2 * K + 1) * u) + q * (1 + u)" using hi' p(2) by (simp add: t_def)
  have h1: "S * (1 / 2) \<le> S * (1 - (K + 1) * u)" using S(1) c1(1) by (intro mult_left_mono) simp_all
  have h2: "q * (1 / 2) \<le> q * (1 - u)" using q(1) u(3) by (intro mult_left_mono) simp_all
  have h3: "S * (1 + (2 * K + 1) * u) \<le> S * 2" using S(1) c1(3) by (intro mult_left_mono) simp_all
  have h4: "q * (1 + u) \<le> q * 2" using q(1) u(2) by (intro mult_left_mono) simp_all
  have t_ge: "(S + q) / 2 \<le> t" using tlo h1 h2 by simp
  have t_le: "t \<le> 2 * (S + q)" using thi h3 h4 by simp
  have t0: "0 \<le> t" using t_ge S(1) q(1) by simp
  have "\<exists>d. \<bar>d\<bar> \<le> roundoff \<and> fl t = Fin (t * (1 + d))"
  proof (rule fl_rel0)
    show "t = 0 \<or> 1 / 2 ^ 1022 \<le> \<bar>t\<bar>"
    proof (cases "S + q = 0")
      case True
      then have "S = 0" "q = 0" using S(1) q(1) by linarith+
      then have "a = 0" "p = 0" using lo' hi' by (simp_all add: p_def)
      then show ?thesis by (simp add: t_def)
    next
      case False
      then have s: "1 / 2 ^ 1000 \<le> S + q" using S(1,2) q(1,2) by auto
      have "(1::real) / 2 ^ 1022 \<le> (1 / 2 ^ 1000) / 2" by simp
      also have "\<dots> \<le> (S + q) / 2" using s by (rule divide_right_mono) simp
      also have "\<dots> \<le> t" by (rule t_ge)
      finally show ?thesis using t0 by simp
    qed
    have "K * 2 ^ 1000 \<le> 2 ^ 20 * 2 ^ 1000" using K(2) by (intro mult_right_mono) simp_all
    then have "S \<le> 2 ^ 20 * 2 ^ 1000" using S(3) unfolding K_def by (rule order_trans [rotated])
    then have "S + q \<le> 2 ^ 20 * 2 ^ 1000 + 2 ^ 1000" using q(3) by (rule add_mono)
    then have "2 * (S + q) \<le> 2 * (2 ^ 20 * 2 ^ 1000 + 2 ^ 1000)" by (intro mult_left_mono) simp_all
    also have "\<dots> \<le> 2 ^ 1023" by simp
    finally have "t \<le> 2 ^ 1023" using t_le by (rule order_trans [rotated])
    then show "\<bar>t\<bar> \<le> 2 ^ 1023" using t0 by simp
  qed
  then obtain d2 where d2: "\<bar>d2\<bar> \<le> u" "fl t = Fin (t * (1 + d2))" unfolding u_def by blast
  define a' where "a' = t * (1 + d2)"
  have a': "t * (1 - u) \<le> a'" "a' \<le> t * (1 + u)"
    unfolding a'_def using rel_bounds [OF t0 d2(1)] by blast+
  have "(S + q) * (1 - (K + 2) * u) \<le> (S * (1 - (K + 1) * u) + q * (1 - u)) * (1 - u)"
    using S(1) q(1) u(1) K(1) by (rule lo_step)
  also have "\<dots> \<le> t * (1 - u)" using tlo u(2) by (intro mult_right_mono) simp_all
  also have "\<dots> \<le> a'" by (rule a'(1))
  finally have L: "(S + q) * (1 - (K + 2) * u) \<le> a'" .
  have "a' \<le> t * (1 + u)" by (rule a'(2))
  also have "\<dots> \<le> (S * (1 + (2 * K + 1) * u) + q * (1 + u)) * (1 + u)"
    using thi u(1) by (intro mult_right_mono) simp_all
  also have "\<dots> \<le> (S + q) * (1 + (2 * K + 3) * u)"
    using S(1) q(1) u(1) K(1) c1(3) u(2) by (rule up_step)
  finally have U: "a' \<le> (S + q) * (1 + (2 * K + 3) * u)" .
  have e3: "real (Suc k) + 1 = K + 2" and e4: "2 * real (Suc k) + 1 = 2 * K + 3"
    by (simp_all add: K_def)
  have "jadd (Fin a) (jmul (Fin x) (Fin x)) = Fin a'"
    using d1(2) d2(2) by (simp add: q_def [symmetric] p_def [symmetric] t_def [symmetric] a'_def)
  then show ?thesis using L U unfolding e3 e4 q_def u_def by blast
qed

lemma sumsq_bounds:
  fixes S a :: real
  assumes "\<forall>x\<in>set xs. (x = 0 \<or> 1 / 2 ^ 500 \<le> \<bar>x\<bar>) \<and> \<bar>x\<bar> \<le> 2 ^ 500"
    and "k + length xs \<le> 2 ^ 20"
    and "S * (1 - (real k + 1) * roundoff) \<le> a"
    and "a \<le> S * (1 + (2 * real k + 1) * roundoff)"
    and "0 \<le> S" "S = 0 \<or> 1 / 2 ^ 1000 \<le> S" "S \<le> real k * 2 ^ 1000"
  shows "\<exists>a'. foldl (\<lambda>sum val. jadd sum (jmul val val)) (Fin a) (map Fin xs) = Fin a'
           \<and> (S + (\<Sum>x\<leftarrow>xs. x * x)) * (1 - (real (k + length xs) + 1) * roundoff) \<le> a'
           \<and> a' \<le> (S + (\<Sum>x\<leftarrow>xs. x * x)) * (1 + (2 * real (k + length xs) + 1) * roundoff)"
  using assms
proof (induction xs arbitrary: k S a)
  case Nil
  then show ?case by simp
next
  case (Cons x xs)
  have x: "x = 0 \<or> 1 / 2 ^ 500 \<le> \<bar>x\<bar>" "\<bar>x\<bar> \<le> 2 ^ 500" using Cons.prems(1) by simp_all
  have k: "k < 2 ^ 20" using Cons.prems(2) by simp
  obtain a1 where a1: "jadd (Fin a) (jmul (Fin x) (Fin x)) = Fin a1"
      "(S + x * x) * (1 - (real (Suc k) + 1) * roundoff) \<le> a1"
      "a1 \<le> (S + x * x) * (1 + (2 * real (Suc k) + 1) * roundoff)"
    using sumsq_step [OF Cons.prems(3,4,5,6,7) x k] by blast
  note q = sq_range [OF x]
  have r: "\<forall>x\<in>set xs. (x = 0 \<or> 1 / 2 ^ 500 \<le> \<bar>x\<bar>) \<and> \<bar>x\<bar> \<le> 2 ^ 500"
    using Cons.prems(1) by simp
  have l: "Suc k + length xs \<le> 2 ^ 20" using Cons.prems(2) by simp
  have s0: "0 \<le> S + x * x" using Cons.prems(5) q(1) by simp
  have s1: "S + x * x = 0 \<or> 1 / 2 ^ 1000 \<le> S + x * x"
    using Cons.prems(5,6) q(1,2) by auto
  have s2: "S + x * x \<le> real (Suc k) * 2 ^ 1000"
    using Cons.prems(7) q(3) by (simp add: algebra_simps)
  obtain a' where a': "foldl (\<lambda>sum val. jadd sum (jmul val val)) (Fin a1) (map Fin xs) = Fin a'"
      "(S + x * x + (\<Sum>x\<leftarrow>xs. x * x)) * (1 - (real (Suc k + length xs) + 1) * roundoff) \<le> a'"
      "a' \<le> (S + x * x + (\<Sum>x\<leftarrow>xs. x * x)) * (1 + (2 * real (Suc k + length xs) + 1) * roundoff)"
    using Cons.IH [OF r l a1(2,3) s0 s1 s2] by blast
  have e: "S + (\<Sum>x\<leftarrow>x # xs. x * x) = S + x * x + (\<Sum>x\<leftarrow>xs. x * x)" by simp
  have n: "k + length (x # xs) = Suc k + length xs" by simp
  show ?case
    unfolding e n using a1(1) a' by (intro exI [of _ a']) simp
qed

lemma sq_rel:
  fixes d u :: real
  assumes "\<bar>d\<bar> \<le> u" "u \<le> 1 / 2"
  shows "1 - 2 * u \<le> (1 + d) * (1 + d)" "(1 + d) * (1 + d) \<le> 1 + 3 * u" "0 < (1 + d) * (1 + d)"
proof -
  have u0: "0 \<le> u" using assms(1) by linarith
  have "d * d = \<bar>d\<bar> * \<bar>d\<bar>" by simp
  also have "\<dots> \<le> u * u" using assms(1) by (intro mult_mono) simp_all
  also have "\<dots> \<le> u * 1" using u0 assms(2) by (intro mult_left_mono) simp_all
  finally have dd: "d * d \<le> u" by simp
  have e: "(1 + d) * (1 + d) = 1 + 2 * d + d * d" by (simp add: algebra_simps)
  have d0: "0 \<le> d * d" by simp
  show "1 - 2 * u \<le> (1 + d) * (1 + d)" unfolding e using d0 assms(1) by linarith
  show "(1 + d) * (1 + d) \<le> 1 + 3 * u" unfolding e using dd assms(1) by linarith
  have "0 < 1 + d" using assms by linarith
  then show "0 < (1 + d) * (1 + d)" by simp
qed

lemma sum_list_ge_member:
  fixes f :: "'a \<Rightarrow> real"
  assumes "\<forall>x\<in>set xs. 0 \<le> f x" "x \<in> set xs"
  shows "f x \<le> (\<Sum>x\<leftarrow>xs. f x)"
  using assms
proof (induction xs)
  case Nil
  then show ?case by simp
next
  case (Cons y ys)
  have n: "0 \<le> (\<Sum>x\<leftarrow>ys. f x)" using Cons.prems(1) by (intro sum_list_nonneg) auto
  show ?case
  proof (cases "x = y")
    case True
    then show ?thesis using n by simp
  next
    case False
    then have "f x \<le> (\<Sum>x\<leftarrow>ys. f x)" using Cons by simp
    moreover have "0 \<le> f y" using Cons.prems(1) by simp
    ultimately show ?thesis by simp
  qed
qed

lemma sum_list_le_length:
  fixes f :: "'a \<Rightarrow> real"
  assumes "\<forall>x\<in>set xs. f x \<le> c"
  shows "(\<Sum>x\<leftarrow>xs. f x) \<le> real (length xs) * c"
  using assms by (induction xs) (simp_all add: algebra_simps)

lemma ex_list_all2: "\<forall>x\<in>set xs. \<exists>y. R x y \<Longrightarrow> \<exists>ys. list_all2 R xs ys"
proof (induction xs)
  case Nil
  then show ?case by simp
next
  case (Cons x xs)
  then obtain y ys where "R x y" "list_all2 R xs ys" by auto
  then have "list_all2 R (x # xs) (y # ys)" by simp
  then show ?case by blast
qed

lemma map_list_all2: "list_all2 (\<lambda>x y. f x = g y) xs ys \<Longrightarrow> map f xs = map g ys"
  by (induction rule: list_all2_induct) simp_all

text \<open>
  The sum of the squares of a vector in range, as the loop of \<^verbatim>\<open>normalizeEmbedding\<close>
  computes it.
\<close>

lemma sumsq_in_range:
  assumes r: "\<forall>x\<in>set xs. (x = 0 \<or> 1 / 2 ^ 500 \<le> \<bar>x\<bar>) \<and> \<bar>x\<bar> \<le> 2 ^ 500"
    and nz: "\<exists>x\<in>set xs. x \<noteq> 0"
    and n: "length xs \<le> 2 ^ 20"
  shows "\<exists>a. foldl (\<lambda>sum val. jadd sum (jmul val val)) (Fin 0) (map Fin xs) = Fin a
     \<and> 1 / 2 ^ 1000 \<le> (\<Sum>x\<leftarrow>xs. x * x) \<and> (\<Sum>x\<leftarrow>xs. x * x) \<le> 2 ^ 1020
     \<and> (\<Sum>x\<leftarrow>xs. x * x) * (1 - (real (length xs) + 1) * roundoff) \<le> a
     \<and> a \<le> (\<Sum>x\<leftarrow>xs. x * x) * (1 + (2 * real (length xs) + 1) * roundoff)"
proof -
  let ?S = "\<Sum>x\<leftarrow>xs. x * x"
  obtain a where a: "foldl (\<lambda>sum val. jadd sum (jmul val val)) (Fin 0) (map Fin xs) = Fin a"
      "(0 + ?S) * (1 - (real (0 + length xs) + 1) * roundoff) \<le> a"
      "a \<le> (0 + ?S) * (1 + (2 * real (0 + length xs) + 1) * roundoff)"
    using sumsq_bounds [OF r, of 0 0 0] n by auto
  obtain x where x: "x \<in> set xs" "x \<noteq> 0" using nz by blast
  have "x * x = 0 \<or> 1 / 2 ^ 1000 \<le> x * x" using sq_range(2) [of x] r x(1) by blast
  then have "1 / 2 ^ 1000 \<le> x * x" using x(2) by simp
  moreover have "x * x \<le> ?S" using x(1) by (intro sum_list_ge_member) simp_all
  ultimately have lo: "1 / 2 ^ 1000 \<le> ?S" by linarith
  have "\<forall>x\<in>set xs. x * x \<le> 2 ^ 1000" using sq_range(3) r by blast
  then have "?S \<le> real (length xs) * 2 ^ 1000" by (rule sum_list_le_length)
  also have "\<dots> \<le> real (2 ^ 20) * 2 ^ 1000"
    using n by (intro mult_right_mono) (simp_all only: of_nat_le_iff, simp)
  also have "\<dots> = 2 ^ 1020" by simp
  finally have hi: "?S \<le> 2 ^ 1020" .
  show ?thesis using a lo hi by (intro exI [of _ a]) simp
qed

text \<open>
  A vector in range, not all zero, comes back with every entry divided by the Euclidean
  norm, up to a factor \<open>\<rho>\<close> close to 1.
\<close>

lemma normalize_in_range:
  assumes r: "\<forall>x\<in>set xs. (x = 0 \<or> 1 / 2 ^ 500 \<le> \<bar>x\<bar>) \<and> \<bar>x\<bar> \<le> 2 ^ 500"
    and nz: "\<exists>x\<in>set xs. x \<noteq> 0"
    and n: "length xs \<le> 2 ^ 20"
  shows "\<exists>ys. normalizeEmbedding (map Fin xs) = map Fin ys
     \<and> list_all2 (\<lambda>x y. \<exists>\<rho>. 0 \<le> \<rho>
            \<and> 1 - 2 * (real (length xs) + 5) * roundoff \<le> \<rho> * \<rho>
            \<and> \<rho> * \<rho> \<le> 1 + 2 * (real (length xs) + 5) * roundoff
            \<and> y = \<rho> * (x / enorm xs)) xs ys"
proof -
  define u where "u = roundoff"
  define N where "N = real (length xs)"
  define S where "S = (\<Sum>x\<leftarrow>xs. x * x)"
  define e where "e = 2 * (N + 5) * u"
  obtain a where fold: "foldl (\<lambda>sum val. jadd sum (jmul val val)) (Fin 0) (map Fin xs) = Fin a"
    and lo: "1 / 2 ^ 1000 \<le> S" and hi: "S \<le> 2 ^ 1020"
    and aL: "S * (1 - (N + 1) * u) \<le> a" and aU: "a \<le> S * (1 + (2 * N + 1) * u)"
    using sumsq_in_range [OF r nz n] unfolding u_def N_def S_def by blast
  have u: "0 \<le> u" "u \<le> 1 / 8" "u = 1 / 2 ^ 53" by (simp_all add: u_def roundoff_def)
  have N: "0 \<le> N" "N \<le> 2 ^ 20"
  proof -
    show "0 \<le> N" by (simp add: N_def)
    have "real (length xs) \<le> real (2 ^ 20)" using n by (simp only: of_nat_le_iff)
    then show "N \<le> 2 ^ 20" by (simp add: N_def)
  qed
  have Nu: "N * u \<le> 2 ^ 20 * u" using N(2) u(1) by (rule mult_right_mono)
  have small: "2 ^ 20 * u \<le> 1 / 2 ^ 33" by (simp add: u(3))
  have n1: "(1::real) / 2 ^ 33 \<le> 1 / 16" by simp
  have n2: "u \<le> 1 / 1024" by (simp add: u(3))
  have Nu0: "0 \<le> N * u" using N(1) u(1) by simp
  have e1: "(N + 1) * u = N * u + u" and e2: "(2 * N + 1) * u = 2 * (N * u) + u"
    and e5: "(N + 5) * u = N * u + 5 * u"
    by (simp_all add: algebra_simps)
  have c: "(N + 1) * u \<le> 1 / 2" "(2 * N + 1) * u \<le> 1" "(N + 5) * u \<le> 1 / 8"
    unfolding e1 e2 e5 using Nu small Nu0 n1 n2 by linarith+
  have e0: "0 \<le> e" unfolding e_def using N(1) u(1) by simp
  have S0: "0 < S"
  proof -
    have "(0::real) < 1 / 2 ^ 1000" by simp
    then show ?thesis using lo by linarith
  qed
  have "S * (1 / 2) \<le> S * (1 - (N + 1) * u)" using S0 c(1) by (intro mult_left_mono) simp_all
  then have aS: "S / 2 \<le> a" using aL by simp
  have "(1::real) / 2 ^ 1001 = (1 / 2 ^ 1000) / 2" by simp
  also have "\<dots> \<le> S / 2" using lo by (rule divide_right_mono) simp
  also have "\<dots> \<le> a" by (rule aS)
  finally have a_lo: "1 / 2 ^ 1001 \<le> a" .
  have "a \<le> S * (1 + (2 * N + 1) * u)" by (rule aU)
  also have "\<dots> \<le> S * 2" using S0 c(2) by (intro mult_left_mono) simp_all
  also have "\<dots> \<le> 2 ^ 1020 * 2" using hi by (rule mult_right_mono) simp
  also have "\<dots> = 2 ^ 1021" by simp
  finally have a_hi: "a \<le> 2 ^ 1021" .
  have a0: "0 < a" using aS S0 by linarith
  define r0 where "r0 = sqrt a"
  have r00: "0 < r0" "r0 * r0 = a" using a0 by (simp_all add: r0_def)
  have r_lo: "1 / 2 ^ 501 \<le> r0"
  proof -
    have "((1::real) / 2 ^ 501)\<^sup>2 = 1 / 2 ^ 1002" by (simp add: power_divide)
    also have "\<dots> \<le> 1 / 2 ^ 1001" by simp
    also have "\<dots> \<le> a" by (rule a_lo)
    finally show ?thesis unfolding r0_def by (rule real_le_rsqrt)
  qed
  have r_hi: "r0 \<le> 2 ^ 511"
  proof -
    have "a \<le> 2 ^ 1021" by (rule a_hi)
    also have "\<dots> \<le> ((2::real) ^ 511)\<^sup>2" by simp
    finally show ?thesis unfolding r0_def by (intro real_le_lsqrt) simp_all
  qed
  have "\<exists>d. \<bar>d\<bar> \<le> roundoff \<and> fl r0 = Fin (r0 * (1 + d))"
  proof (rule fl_rel0)
    have "(1::real) / 2 ^ 1022 \<le> 1 / 2 ^ 501" by simp
    then have "1 / 2 ^ 1022 \<le> r0" using r_lo by (rule order_trans)
    then show "r0 = 0 \<or> 1 / 2 ^ 1022 \<le> \<bar>r0\<bar>" using r00(1) by simp
    have "(2::real) ^ 511 \<le> 2 ^ 1023" by simp
    then have "r0 \<le> 2 ^ 1023" using r_hi by (rule order_trans [rotated])
    then show "\<bar>r0\<bar> \<le> 2 ^ 1023" using r00(1) by simp
  qed
  then obtain d' where d': "\<bar>d'\<bar> \<le> u" "fl r0 = Fin (r0 * (1 + d'))" unfolding u_def by blast
  define nrm where "nrm = r0 * (1 + d')"
  define B where "B = (1 + d') * (1 + d')"
  have B: "1 - 2 * u \<le> B" "B \<le> 1 + 3 * u" "0 < B"
    unfolding B_def using sq_rel [OF d'(1)] u(2) by simp_all
  have nn: "nrm * nrm = a * B" using r00(2) by (simp add: nrm_def B_def algebra_simps)
  have nb: "r0 * (1 - u) \<le> nrm" "nrm \<le> r0 * (1 + u)"
    unfolding nrm_def using rel_bounds [OF _ d'(1), of r0] r00(1) by simp_all
  have "(1::real) / 2 ^ 502 = (1 / 2 ^ 501) * (1 / 2)" by simp
  also have "\<dots> \<le> r0 * (1 / 2)" using r_lo by (rule mult_right_mono) simp
  also have "\<dots> \<le> r0 * (1 - u)" using r00(1) u(2) by (intro mult_left_mono) simp_all
  also have "\<dots> \<le> nrm" by (rule nb(1))
  finally have n_lo: "1 / 2 ^ 502 \<le> nrm" .
  have "nrm \<le> r0 * (1 + u)" by (rule nb(2))
  also have "\<dots> \<le> r0 * 2" using r00(1) u(2) by (intro mult_left_mono) simp_all
  also have "\<dots> \<le> 2 ^ 511 * 2" using r_hi by (rule mult_right_mono) simp
  also have "\<dots> = 2 ^ 512" by simp
  finally have n_hi: "nrm \<le> 2 ^ 512" .
  have n0: "0 < nrm"
  proof -
    have "(0::real) < 1 / 2 ^ 502" by simp
    then show ?thesis using n_lo by linarith
  qed
  have norm: "jsqrt (foldl (\<lambda>sum val. jadd sum (jmul val val)) (Fin 0) (map Fin xs)) = Fin nrm"
    unfolding fold using a0 d'(2) by (simp add: r0_def [symmetric] nrm_def)
  have res: "normalizeEmbedding (map Fin xs) = map (\<lambda>x. fl (x / nrm)) xs"
    unfolding normalizeEmbedding_def norm using n0 by (simp add: Let_def comp_def)
  define C where "C = a / S"
  have C: "1 - (N + 1) * u \<le> C" "C \<le> 1 + (2 * N + 1) * u" "0 < C"
  proof -
    show "1 - (N + 1) * u \<le> C" unfolding C_def using aL S0
      by (simp add: pos_le_divide_eq mult.commute)
    show "C \<le> 1 + (2 * N + 1) * u" unfolding C_def using aU S0
      by (simp add: pos_divide_le_eq mult.commute)
    show "0 < C" unfolding C_def using a0 S0 by simp
  qed
  have sS: "0 < sqrt S" "sqrt S * sqrt S = S" using S0 by simp_all
  have en: "enorm xs = sqrt S" by (simp add: enorm_def S_def power2_eq_square)
  define Q where "Q = (\<lambda>x y. \<exists>\<rho>. 0 \<le> \<rho> \<and> 1 - e \<le> \<rho> * \<rho> \<and> \<rho> * \<rho> \<le> 1 + e
                          \<and> y = \<rho> * (x / sqrt S))"
  define R where "R = (\<lambda>x y. fl (x / nrm) = Fin y \<and> Q x y)"
  have entry: "\<exists>y. R x y" if "x \<in> set xs" for x
  proof (cases "x = 0")
    case True
    have "0 \<le> (1::real) \<and> 1 - e \<le> 1 * 1 \<and> 1 * 1 \<le> 1 + e \<and> (0::real) = 1 * (x / sqrt S)"
      using e0 True by simp
    then have "Q x 0" unfolding Q_def by (rule exI)
    moreover have "fl (x / nrm) = Fin 0" using True by (simp add: fl_0)
    ultimately have "R x 0" unfolding R_def by (rule conjI [rotated])
    then show ?thesis by (rule exI)
  next
    case False
    then have x: "1 / 2 ^ 500 \<le> \<bar>x\<bar>" "\<bar>x\<bar> \<le> 2 ^ 500" using r that by auto
    define z where "z = x / nrm"
    have az: "\<bar>z\<bar> = \<bar>x\<bar> / nrm" using n0 by (simp add: z_def)
    have "\<exists>d. \<bar>d\<bar> \<le> roundoff \<and> fl z = Fin (z * (1 + d))"
    proof (rule fl_rel0)
      have "(1::real) / 2 ^ 1022 \<le> (1 / 2 ^ 500) / 2 ^ 512" by simp
      also have "\<dots> \<le> \<bar>x\<bar> / nrm" using x(1) n_hi n0 by (intro frac_le) simp_all
      finally show "z = 0 \<or> 1 / 2 ^ 1022 \<le> \<bar>z\<bar>" unfolding az by simp
      have "\<bar>x\<bar> / nrm \<le> 2 ^ 500 / (1 / 2 ^ 502)" using x(2) n_lo by (intro frac_le) simp_all
      also have "\<dots> \<le> 2 ^ 1023" by simp
      finally show "\<bar>z\<bar> \<le> 2 ^ 1023" unfolding az .
    qed
    then obtain d where d: "\<bar>d\<bar> \<le> u" "fl z = Fin (z * (1 + d))" unfolding u_def by blast
    define A where "A = (1 + d) * (1 + d)"
    have A: "1 - 2 * u \<le> A" "A \<le> 1 + 3 * u" "0 < A"
      unfolding A_def using sq_rel [OF d(1)] u(2) by simp_all
    define \<rho> where "\<rho> = (1 + d) * sqrt S / nrm"
    have d1: "0 \<le> 1 + d" using d(1) u(2) by linarith
    have p0: "0 \<le> \<rho>" unfolding \<rho>_def using d1 sS(1) n0 by simp
    have "\<rho> * \<rho> = A * (sqrt S * sqrt S) / (nrm * nrm)" by (simp add: \<rho>_def A_def)
    also have "\<dots> = A * S / (a * B)" by (simp only: sS(2) nn)
    also have "\<dots> = A / (B * C)" using S0 a0 by (simp add: C_def field_simps)
    finally have pp: "\<rho> * \<rho> = A / (B * C)" .
    have up: "\<rho> * \<rho> \<le> 1 + e"
      unfolding pp e_def using A(3) A(2) B(1) C(1) u(1) N(1) c(3)
      by (intro ratio_upper) simp_all
    have low: "1 - e \<le> \<rho> * \<rho>"
      unfolding pp e_def using A(1) B(3) B(2) C(3) C(2) u(1) N(1) c(3)
      by (intro ratio_lower) simp_all
    have y: "z * (1 + d) = \<rho> * (x / sqrt S)"
      using sS(1) n0 by (simp add: z_def \<rho>_def field_simps)
    have "0 \<le> \<rho> \<and> 1 - e \<le> \<rho> * \<rho> \<and> \<rho> * \<rho> \<le> 1 + e \<and> z * (1 + d) = \<rho> * (x / sqrt S)"
      using p0 low up y by simp
    then have "Q x (z * (1 + d))" unfolding Q_def by (rule exI)
    moreover have "fl (x / nrm) = Fin (z * (1 + d))" using d(2) by (simp only: z_def)
    ultimately have "R x (z * (1 + d))" unfolding R_def by (rule conjI [rotated])
    then show ?thesis by (rule exI)
  qed
  then have "\<forall>x\<in>set xs. \<exists>y. R x y" by simp
  then obtain ys where ys: "list_all2 R xs ys" using ex_list_all2 [of xs R] by blast
  have "list_all2 (\<lambda>x y. fl (x / nrm) = Fin y) xs ys"
    using ys by (rule list_all2_mono) (simp add: R_def)
  then have m: "map (\<lambda>x. fl (x / nrm)) xs = map Fin ys" by (rule map_list_all2)
  have q: "list_all2 Q xs ys" using ys by (rule list_all2_mono) (simp add: R_def)
  have "normalizeEmbedding (map Fin xs) = map Fin ys \<and> list_all2 Q xs ys"
    using res m q by simp
  then show ?thesis unfolding Q_def e_def N_def u_def en by (rule exI)
qed

lemma near_one:
  fixes p e :: real
  assumes "0 \<le> p" "\<bar>p * p - 1\<bar> \<le> e"
  shows "\<bar>p - 1\<bar> \<le> e"
proof -
  have "\<bar>p - 1\<bar> * 1 \<le> \<bar>p - 1\<bar> * (p + 1)" using assms(1) by (intro mult_left_mono) simp_all
  also have "\<dots> = \<bar>(p - 1) * (p + 1)\<bar>" using assms(1) by (simp add: abs_mult)
  also have "(p - 1) * (p + 1) = p * p - 1" by (simp add: algebra_simps)
  finally show ?thesis using assms(2) by simp
qed

lemma sqrt_near_one:
  assumes "0 \<le> T" "\<bar>T - 1\<bar> \<le> e"
  shows "\<bar>sqrt T - 1\<bar> \<le> e"
proof (rule near_one)
  show "0 \<le> sqrt T" using assms(1) by simp
  show "\<bar>sqrt T * sqrt T - 1\<bar> \<le> e" using assms by simp
qed

lemma close_sumsq:
  fixes e c :: real
  assumes "list_all2 (\<lambda>x y. \<exists>\<rho>. 0 \<le> \<rho> \<and> 1 - e \<le> \<rho> * \<rho> \<and> \<rho> * \<rho> \<le> 1 + e
             \<and> y = \<rho> * (x / c)) xs ys"
  shows "(1 - e) * (\<Sum>x\<leftarrow>xs. (x / c) * (x / c)) \<le> (\<Sum>y\<leftarrow>ys. y * y)
       \<and> (\<Sum>y\<leftarrow>ys. y * y) \<le> (1 + e) * (\<Sum>x\<leftarrow>xs. (x / c) * (x / c))"
  using assms
proof (induction rule: list_all2_induct)
  case Nil
  then show ?case by simp
next
  case (Cons x xs y ys)
  then obtain \<rho> where p: "1 - e \<le> \<rho> * \<rho>" "\<rho> * \<rho> \<le> 1 + e" "y = \<rho> * (x / c)" by blast
  define w where "w = (x / c) * (x / c)"
  have w: "0 \<le> w" by (simp add: w_def)
  have yy: "y * y = (\<rho> * \<rho>) * w" by (simp add: p(3) w_def)
  have y: "(1 - e) * w \<le> y * y" "y * y \<le> (1 + e) * w"
    unfolding yy using p(1,2) w by (auto intro: mult_right_mono)
  define T where "T = (\<Sum>x\<leftarrow>xs. (x / c) * (x / c))"
  define U where "U = (\<Sum>y\<leftarrow>ys. y * y)"
  have s1: "(\<Sum>x\<leftarrow>x # xs. (x / c) * (x / c)) = w + T" by (simp add: w_def T_def)
  have s2: "(\<Sum>y\<leftarrow>y # ys. y * y) = y * y + U" by (simp add: U_def)
  have ih: "(1 - e) * T \<le> U" "U \<le> (1 + e) * T" using Cons.IH by (simp_all add: T_def U_def)
  have d1: "(1 - e) * (w + T) = (1 - e) * w + (1 - e) * T" by (rule distrib_left)
  have d2: "(1 + e) * (w + T) = (1 + e) * w + (1 + e) * T" by (rule distrib_left)
  show ?case unfolding s1 s2 d1 d2 using y ih by (intro conjI add_mono)
qed

lemma sumsq_scaled:
  fixes c :: real
  shows "(\<Sum>x\<leftarrow>xs. (x / c) * (x / c)) = (\<Sum>x\<leftarrow>xs. x * x) / (c * c)"
  by (induction xs) (simp_all add: add_divide_distrib)

text \<open>
  The accuracy of \<^verbatim>\<open>normalizeEmbedding\<close> on a vector in range with \<open>n\<close> entries: each
  entry of the result is the entry divided by the Euclidean norm, and the norm of the result
  is 1, both within the relative error \<open>(n + 5) / 2\<^sup>5\<^sup>2\<close>.
\<close>

lemma normalize_accuracy:
  assumes r: "\<forall>x\<in>set xs. (x = 0 \<or> 1 / 2 ^ 500 \<le> \<bar>x\<bar>) \<and> \<bar>x\<bar> \<le> 2 ^ 500"
    and nz: "\<exists>x\<in>set xs. x \<noteq> 0"
    and n: "length xs \<le> 2 ^ 20"
  shows "\<exists>ys. normalizeEmbedding (map Fin xs) = map Fin ys \<and> length ys = length xs
     \<and> \<bar>(\<Sum>y\<leftarrow>ys. y * y) - 1\<bar> \<le> 2 * (real (length xs) + 5) * roundoff
     \<and> \<bar>enorm ys - 1\<bar> \<le> 2 * (real (length xs) + 5) * roundoff
     \<and> (\<forall>i<length xs. \<bar>ys ! i - xs ! i / enorm xs\<bar>
            \<le> 2 * (real (length xs) + 5) * roundoff * \<bar>xs ! i / enorm xs\<bar>)"
proof -
  define e where "e = 2 * (real (length xs) + 5) * roundoff"
  define c where "c = enorm xs"
  obtain ys where res: "normalizeEmbedding (map Fin xs) = map Fin ys"
    and all: "list_all2 (\<lambda>x y. \<exists>\<rho>. 0 \<le> \<rho> \<and> 1 - e \<le> \<rho> * \<rho> \<and> \<rho> * \<rho> \<le> 1 + e
                 \<and> y = \<rho> * (x / c)) xs ys"
    using normalize_in_range [OF r nz n] unfolding e_def c_def by blast
  have len: "length ys = length xs" using all by (simp add: list_all2_lengthD)
  obtain x where x: "x \<in> set xs" "x \<noteq> 0" using nz by blast
  have "0 < x\<^sup>2" using x(2) by simp
  then have "0 < x * x" by (simp only: power2_eq_square)
  moreover have "x * x \<le> (\<Sum>x\<leftarrow>xs. x * x)" using x(1) by (intro sum_list_ge_member) simp_all
  ultimately have S0: "0 < (\<Sum>x\<leftarrow>xs. x * x)" by linarith
  have cc: "c * c = (\<Sum>x\<leftarrow>xs. x * x)" using S0 by (simp add: c_def enorm_def power2_eq_square)
  have one: "(\<Sum>x\<leftarrow>xs. (x / c) * (x / c)) = 1" unfolding sumsq_scaled cc using S0 by simp
  have T: "1 - e \<le> (\<Sum>y\<leftarrow>ys. y * y)" "(\<Sum>y\<leftarrow>ys. y * y) \<le> 1 + e"
    using close_sumsq [OF all] unfolding one by simp_all
  then have T1: "\<bar>(\<Sum>y\<leftarrow>ys. y * y) - 1\<bar> \<le> e" by linarith
  have T0: "0 \<le> (\<Sum>y\<leftarrow>ys. y * y)" by (intro sum_list_nonneg) auto
  have en: "\<bar>enorm ys - 1\<bar> \<le> e"
    unfolding enorm_def power2_eq_square using T0 T1 by (rule sqrt_near_one)
  have comp: "\<bar>ys ! i - xs ! i / c\<bar> \<le> e * \<bar>xs ! i / c\<bar>" if i: "i < length xs" for i
  proof -
    have "\<exists>\<rho>. 0 \<le> \<rho> \<and> 1 - e \<le> \<rho> * \<rho> \<and> \<rho> * \<rho> \<le> 1 + e \<and> ys ! i = \<rho> * (xs ! i / c)"
      using list_all2_nthD [OF all i] .
    then obtain \<rho> where p: "0 \<le> \<rho>" "1 - e \<le> \<rho> * \<rho>" "\<rho> * \<rho> \<le> 1 + e" "ys ! i = \<rho> * (xs ! i / c)"
      by (elim exE conjE)
    have "\<bar>\<rho> * \<rho> - 1\<bar> \<le> e" using p(2,3) by linarith
    with p(1) have p1: "\<bar>\<rho> - 1\<bar> \<le> e" by (rule near_one)
    have g: "\<rho> * w - w = (\<rho> - 1) * w" for w :: real by (simp add: algebra_simps)
    have "ys ! i - xs ! i / c = (\<rho> - 1) * (xs ! i / c)" unfolding p(4) by (rule g)
    then have "\<bar>ys ! i - xs ! i / c\<bar> = \<bar>\<rho> - 1\<bar> * \<bar>xs ! i / c\<bar>" by (simp only: abs_mult)
    also have "\<dots> \<le> e * \<bar>xs ! i / c\<bar>" using p1 by (rule mult_right_mono) simp
    finally show ?thesis .
  qed
  have "normalizeEmbedding (map Fin xs) = map Fin ys \<and> length ys = length xs
     \<and> \<bar>(\<Sum>y\<leftarrow>ys. y * y) - 1\<bar> \<le> e \<and> \<bar>enorm ys - 1\<bar> \<le> e
     \<and> (\<forall>i<length xs. \<bar>ys ! i - xs ! i / c\<bar> \<le> e * \<bar>xs ! i / c\<bar>)"
  proof (intro conjI allI impI)
    show "normalizeEmbedding (map Fin xs) = map Fin ys" by (rule res)
    show "length ys = length xs" by (rule len)
    show "\<bar>(\<Sum>y\<leftarrow>ys. y * y) - 1\<bar> \<le> e" by (rule T1)
    show "\<bar>enorm ys - 1\<bar> \<le> e" by (rule en)
    show "\<bar>ys ! i - xs ! i / c\<bar> \<le> e * \<bar>xs ! i / c\<bar>" if "i < length xs" for i
      using that by (rule comp)
  qed
  then show ?thesis unfolding e_def c_def by (rule exI)
qed

text \<open>The vectors that \<^verbatim>\<open>normalizeEmbedding\<close> leaves as they are.\<close>

lemma sumsq_tiny:
  "\<forall>x\<in>set xs. \<bar>x\<bar> \<le> 1 / 2 ^ 538 \<Longrightarrow>
   foldl (\<lambda>sum val. jadd sum (jmul val val)) (Fin 0) (map Fin xs) = Fin 0"
proof (induction xs)
  case Nil
  then show ?case by simp
next
  case (Cons x xs)
  have "\<bar>x\<bar> \<le> 1 / 2 ^ 538" using Cons.prems by simp
  then have "\<bar>x\<bar> * \<bar>x\<bar> \<le> (1 / 2 ^ 538) * (1 / 2 ^ 538)" by (intro mult_mono) simp_all
  also have "\<dots> \<le> 1 / 2 ^ 1075" by simp
  finally have "\<bar>x * x\<bar> \<le> 1 / 2 ^ 1075" by (simp add: abs_mult)
  then have "fl (x * x) = Fin 0" by (rule fl_underflow)
  then show ?case using Cons by (simp add: fl_0)
qed

lemma normalize_tiny:
  "\<forall>x\<in>set xs. \<bar>x\<bar> \<le> 1 / 2 ^ 538 \<Longrightarrow> normalizeEmbedding (map Fin xs) = map Fin xs"
  by (simp add: normalizeEmbedding_def sumsq_tiny fl_0)

lemma jmul_self_nonfin: "\<not> isFinite v \<Longrightarrow> jmul v v = PInf \<or> jmul v v = NaN"
  by (cases v) (simp_all add: inf_of_def)

lemma from0_jmul_self: "from0 (jmul v v)"
proof (cases v)
  case (Fin a)
  have "from0 (fl (a * a))" by (rule from0_fl) simp
  then show ?thesis using Fin by simp
qed (simp_all add: from0_def inf_of_def)

lemma jadd_bad_left:
  "acc = PInf \<or> acc = NaN \<Longrightarrow> jadd acc (jmul v v) = PInf \<or> jadd acc (jmul v v) = NaN"
  using from0_jmul_self [of v] by (cases "jmul v v") (auto simp: from0_def)

lemma sumsq_bad_acc:
  "acc = PInf \<or> acc = NaN \<Longrightarrow>
   foldl (\<lambda>sum val. jadd sum (jmul val val)) acc v = PInf \<or>
   foldl (\<lambda>sum val. jadd sum (jmul val val)) acc v = NaN"
proof (induction v arbitrary: acc)
  case Nil
  then show ?case by simp
next
  case (Cons x v)
  show ?case using Cons.IH [OF jadd_bad_left [OF Cons.prems, of x]] by simp
qed

lemma jadd_bad_right:
  "from0 acc \<Longrightarrow> b = PInf \<or> b = NaN \<Longrightarrow> jadd acc b = PInf \<or> jadd acc b = NaN"
  by (cases acc) (auto simp: from0_def)

text \<open>
  One entry that is not finite, or whose square overflows, makes the sum of the squares
  infinite or \<^verbatim>\<open>NaN\<close>.
\<close>

lemma sumsq_nonfin:
  "\<exists>x\<in>set v. jmul x x = PInf \<or> jmul x x = NaN \<Longrightarrow> from0 acc \<Longrightarrow>
   foldl (\<lambda>sum val. jadd sum (jmul val val)) acc v = PInf \<or>
   foldl (\<lambda>sum val. jadd sum (jmul val val)) acc v = NaN"
proof (induction v arbitrary: acc)
  case Nil
  then show ?case by simp
next
  case (Cons x v)
  show ?case
  proof (cases "jmul x x = PInf \<or> jmul x x = NaN")
    case True
    then have "jadd acc (jmul x x) = PInf \<or> jadd acc (jmul x x) = NaN"
      using Cons.prems(2) by (rule jadd_bad_right [rotated])
    then show ?thesis using sumsq_bad_acc by simp
  next
    case False
    then have "\<exists>x\<in>set v. jmul x x = PInf \<or> jmul x x = NaN" using Cons.prems(1) by auto
    moreover have "from0 (jadd acc (jmul x x))"
      using Cons.prems(2) from0_jmul_self by (rule from0_add)
    ultimately show ?thesis using Cons.IH by simp
  qed
qed

lemma normalize_unchanged:
  assumes "\<exists>x\<in>set v. jmul x x = PInf \<or> jmul x x = NaN"
  shows "normalizeEmbedding v = v"
proof -
  have "from0 (Fin 0)" by (simp add: from0_def)
  then have "foldl (\<lambda>sum val. jadd sum (jmul val val)) (Fin 0) v = PInf \<or>
        foldl (\<lambda>sum val. jadd sum (jmul val val)) (Fin 0) v = NaN"
    by (rule sumsq_nonfin [OF assms])
  then show ?thesis by (auto simp: normalizeEmbedding_def Let_def)
qed

lemma normalize_unchanged_nonfin:
  "\<exists>x\<in>set v. \<not> isFinite x \<Longrightarrow> normalizeEmbedding v = v"
  using jmul_self_nonfin by (intro normalize_unchanged) blast

lemma normalize_huge:
  assumes "\<exists>x\<in>set xs. 2 ^ 512 \<le> \<bar>x\<bar>"
  shows "normalizeEmbedding (map Fin xs) = map Fin xs"
proof -
  obtain x where x: "x \<in> set xs" "2 ^ 512 \<le> \<bar>x\<bar>" using assms by blast
  have "(2::real) ^ 1024 = 2 ^ 512 * 2 ^ 512" by simp
  also have "\<dots> \<le> \<bar>x\<bar> * \<bar>x\<bar>" using x(2) by (intro mult_mono) simp_all
  finally have "2 ^ 1024 \<le> x * x" by simp
  then have "fl (x * x) = PInf" by (rule fl_overflow)
  then have "jmul (Fin x) (Fin x) = PInf" by simp
  then have "\<exists>v\<in>set (map Fin xs). jmul v v = PInf \<or> jmul v v = NaN" using x(1) by auto
  then show ?thesis by (rule normalize_unchanged)
qed

text \<open>
  C4. \<^verbatim>\<open>normalizeEmbedding\<close> is total. It gives its argument back unchanged when the
  computed norm is zero or not finite: when every entry is at most \<open>2\<^sup>-\<^sup>5\<^sup>3\<^sup>8\<close> in
  magnitude (the squares underflow; the zero vector is such a vector), when an entry is
  infinite or \<^verbatim>\<open>NaN\<close>, and when an entry is \<open>2\<^sup>5\<^sup>1\<^sup>2\<close> or more in magnitude (its
  square overflows). A vector of at most \<open>2\<^sup>2\<^sup>0\<close> entries, not all zero, whose non-zero
  entries have magnitudes from \<open>2\<^sup>-\<^sup>5\<^sup>0\<^sup>0\<close> to \<open>2\<^sup>5\<^sup>0\<^sup>0\<close>, comes back divided by its
  Euclidean norm, each entry within the relative error \<open>(n + 5) / 2\<^sup>5\<^sup>2\<close>, and the
  result has norm 1 within \<open>(n + 5) / 2\<^sup>5\<^sup>2\<close>.
\<close>

theorem normalizeEmbedding_spec:
  "((\<forall>x\<in>set xs. \<bar>x\<bar> \<le> 1 / 2 ^ 538) \<longrightarrow> normalizeEmbedding (map Fin xs) = map Fin xs)
   \<and> ((\<exists>x\<in>set v. \<not> isFinite x) \<longrightarrow> normalizeEmbedding v = v)
   \<and> ((\<exists>x\<in>set xs. 2 ^ 512 \<le> \<bar>x\<bar>) \<longrightarrow> normalizeEmbedding (map Fin xs) = map Fin xs)
   \<and> ((\<forall>x\<in>set zs. (x = 0 \<or> 1 / 2 ^ 500 \<le> \<bar>x\<bar>) \<and> \<bar>x\<bar> \<le> 2 ^ 500)
        \<and> (\<exists>x\<in>set zs. x \<noteq> 0) \<and> length zs \<le> 2 ^ 20
      \<longrightarrow> (\<exists>ys. normalizeEmbedding (map Fin zs) = map Fin ys \<and> length ys = length zs
             \<and> \<bar>enorm ys - 1\<bar> \<le> 2 * (real (length zs) + 5) * roundoff
             \<and> (\<forall>i<length zs. \<bar>ys ! i - zs ! i / enorm zs\<bar>
                    \<le> 2 * (real (length zs) + 5) * roundoff * \<bar>zs ! i / enorm zs\<bar>)))"
proof (intro conjI impI)
  show "normalizeEmbedding (map Fin xs) = map Fin xs" if "\<forall>x\<in>set xs. \<bar>x\<bar> \<le> 1 / 2 ^ 538"
    using that by (rule normalize_tiny)
  show "normalizeEmbedding v = v" if "\<exists>x\<in>set v. \<not> isFinite x"
    using that by (rule normalize_unchanged_nonfin)
  show "normalizeEmbedding (map Fin xs) = map Fin xs" if "\<exists>x\<in>set xs. 2 ^ 512 \<le> \<bar>x\<bar>"
    using that by (rule normalize_huge)
  show "\<exists>ys. normalizeEmbedding (map Fin zs) = map Fin ys \<and> length ys = length zs
             \<and> \<bar>enorm ys - 1\<bar> \<le> 2 * (real (length zs) + 5) * roundoff
             \<and> (\<forall>i<length zs. \<bar>ys ! i - zs ! i / enorm zs\<bar>
                    \<le> 2 * (real (length zs) + 5) * roundoff * \<bar>zs ! i / enorm zs\<bar>)"
    if a: "(\<forall>x\<in>set zs. (x = 0 \<or> 1 / 2 ^ 500 \<le> \<bar>x\<bar>) \<and> \<bar>x\<bar> \<le> 2 ^ 500)
        \<and> (\<exists>x\<in>set zs. x \<noteq> 0) \<and> length zs \<le> 2 ^ 20"
  proof -
    have r: "\<forall>x\<in>set zs. (x = 0 \<or> 1 / 2 ^ 500 \<le> \<bar>x\<bar>) \<and> \<bar>x\<bar> \<le> 2 ^ 500"
      using a by (rule conjunct1)
    have nz: "\<exists>x\<in>set zs. x \<noteq> 0" using a by (rule conjunct2 [THEN conjunct1])
    have n: "length zs \<le> 2 ^ 20" using a by (rule conjunct2 [THEN conjunct2])
    obtain ys where ys: "normalizeEmbedding (map Fin zs) = map Fin ys" "length ys = length zs"
        "\<bar>enorm ys - 1\<bar> \<le> 2 * (real (length zs) + 5) * roundoff"
        "\<forall>i<length zs. \<bar>ys ! i - zs ! i / enorm zs\<bar>
            \<le> 2 * (real (length zs) + 5) * roundoff * \<bar>zs ! i / enorm zs\<bar>"
      using normalize_accuracy [OF r nz n] by (elim exE conjE)
    show ?thesis by (rule exI [of _ ys]) (intro conjI ys)
  qed
qed

theorem normalizeEmbedding_spec_witness:
  "normalizeEmbedding [Fin 0, Fin 0] = [Fin 0, Fin 0]
   \<and> normalizeEmbedding [PInf, Fin 1] = [PInf, Fin 1]
   \<and> normalizeEmbedding [Fin 1, Fin huge] = [Fin 1, Fin huge]
   \<and> (\<exists>ys. normalizeEmbedding [Fin 3, Fin 4] = map Fin ys \<and> length ys = 2
         \<and> \<bar>enorm ys - 1\<bar> \<le> 14 * roundoff)"
proof -
  have 1: "normalizeEmbedding [Fin 0, Fin 0] = [Fin 0, Fin 0]"
    using normalizeEmbedding_spec [where xs = "[0, 0]", THEN conjunct1] by simp
  have 2: "normalizeEmbedding [PInf, Fin 1] = [PInf, Fin 1]"
    using normalizeEmbedding_spec [where v = "[PInf, Fin 1]", THEN conjunct2, THEN conjunct1]
    by simp
  have 3: "normalizeEmbedding [Fin 1, Fin huge] = [Fin 1, Fin huge]"
    using normalizeEmbedding_spec [where xs = "[1, huge]", THEN conjunct2, THEN conjunct2,
            THEN conjunct1]
    by (simp add: huge_def)
  have h: "(\<forall>x\<in>set [3, 4 :: real]. (x = 0 \<or> 1 / 2 ^ 500 \<le> \<bar>x\<bar>) \<and> \<bar>x\<bar> \<le> 2 ^ 500)
        \<and> (\<exists>x\<in>set [3, 4 :: real]. x \<noteq> 0) \<and> length [3, 4 :: real] \<le> 2 ^ 20"
    by simp
  obtain ys where ys: "normalizeEmbedding (map Fin [3, 4]) = map Fin ys"
      "length ys = length [3, 4 :: real]"
      "\<bar>enorm ys - 1\<bar> \<le> 2 * (real (length [3, 4 :: real]) + 5) * roundoff"
    using normalizeEmbedding_spec [where zs = "[3, 4]", THEN conjunct2, THEN conjunct2,
            THEN conjunct2, THEN mp, OF h]
    by (elim exE conjE)
  have "normalizeEmbedding [Fin 3, Fin 4] = map Fin ys \<and> length ys = 2
         \<and> \<bar>enorm ys - 1\<bar> \<le> 14 * roundoff"
    using ys by simp
  then have 4: "\<exists>ys. normalizeEmbedding [Fin 3, Fin 4] = map Fin ys \<and> length ys = 2
         \<and> \<bar>enorm ys - 1\<bar> \<le> 14 * roundoff"
    by (rule exI)
  show ?thesis using 1 2 3 4 by (intro conjI)
qed

text \<open>
  A non-zero vector of finite values need not come back with norm 1: \<open>[huge, huge]\<close>,
  whose squares overflow, and \<open>[faint]\<close>, whose square underflows, come back unchanged.
\<close>

theorem normalizeEmbedding_range_counterexample:
  "normalizeEmbedding [Fin huge, Fin huge] = [Fin huge, Fin huge]
   \<and> 2 \<le> enorm [huge, huge]
   \<and> normalizeEmbedding [Fin faint] = [Fin faint]
   \<and> faint \<noteq> 0
   \<and> enorm [faint] \<le> 1 / 2"
proof -
  have 1: "normalizeEmbedding [Fin huge, Fin huge] = [Fin huge, Fin huge]"
    using normalize_huge [of "[huge, huge]"] by (simp add: huge_def)
  have "2\<^sup>2 \<le> huge\<^sup>2 + huge\<^sup>2" by (simp add: huge_def)
  then have 2: "2 \<le> enorm [huge, huge]" unfolding enorm_def by (simp add: real_le_rsqrt)
  have 3: "normalizeEmbedding [Fin faint] = [Fin faint]"
    using normalize_tiny [of "[faint]"] by (simp add: faint_def)
  have 4: "faint \<noteq> 0" using faint_pos by simp
  have "enorm [faint] = faint" using faint_pos by (simp add: enorm_def)
  then have 5: "enorm [faint] \<le> 1 / 2" by (simp add: faint_def)
  show ?thesis using 1 2 3 4 5 by simp
qed

lemma tiny_pos: "0 < tiny"
  by (simp add: tiny_def)

lemma fl_err2:
  assumes "\<bar>x\<bar> \<le> 2 ^ 1023"
  shows "\<exists>y. fl x = Fin y \<and> \<bar>y - x\<bar> \<le> roundoff * \<bar>x\<bar> + tiny"
  using fl_err [OF assms] by (simp add: roundoff_def tiny_def)

lemma dot_step_bound:
  fixes E W u K :: real
  assumes "E \<le> 3 * K * W" "0 \<le> W" "0 \<le> u" "0 \<le> K" "(3 * K + 1) * u \<le> 1"
  shows "E * (1 + u) + (2 + u) * W \<le> 3 * (K + 1) * W"
proof -
  have "E * (1 + u) \<le> 3 * K * W * (1 + u)" using assms(1,3) by (intro mult_right_mono) simp_all
  moreover have "3 * (K + 1) * W - (3 * K * W * (1 + u) + (2 + u) * W)
        = W * (1 - (3 * K + 1) * u)"
    by (simp add: algebra_simps)
  moreover have "0 \<le> W * (1 - (3 * K + 1) * u)" using assms(2,5) by simp
  ultimately show ?thesis by linarith
qed

lemma dot_step:
  fixes s P A x y :: real and k :: nat
  assumes inv: "\<bar>s - P\<bar> \<le> 3 * real k * (roundoff * A + tiny)"
    and P: "\<bar>P\<bar> \<le> A"
    and A: "A + \<bar>x * y\<bar> \<le> 2 ^ 1000"
    and k: "k < 2 ^ 20"
  shows "\<exists>s'. jadd (Fin s) (jmul (Fin x) (Fin y)) = Fin s'
           \<and> \<bar>s' - (P + x * y)\<bar> \<le> 3 * real (Suc k) * (roundoff * (A + \<bar>x * y\<bar>) + tiny)"
proof -
  define u where "u = roundoff"
  define h where "h = tiny"
  define K where "K = real k"
  define a where "a = \<bar>x * y\<bar>"
  define W where "W = u * (A + a) + h"
  define E where "E = \<bar>s - P\<bar>"
  have u: "0 \<le> u" "u \<le> 1 / 1024" "u = 1 / 2 ^ 53" by (simp_all add: u_def roundoff_def)
  have h: "0 \<le> h" "h \<le> 1" by (simp_all add: h_def tiny_def)
  have K: "0 \<le> K" "K \<le> 2 ^ 20"
  proof -
    show "0 \<le> K" by (simp add: K_def)
    have "real k \<le> real (2 ^ 20)" using k by (simp only: of_nat_le_iff)
    then show "K \<le> 2 ^ 20" by (simp add: K_def)
  qed
  have Ku: "K * u \<le> 2 ^ 20 * u" using K(2) u(1) by (rule mult_right_mono)
  have small: "2 ^ 20 * u \<le> 1 / 2 ^ 33" by (simp add: u(3))
  have n1: "(1::real) / 2 ^ 33 \<le> 1 / 16" by simp
  have e1: "(3 * K + 1) * u = 3 * (K * u) + u" by (simp add: algebra_simps)
  have c: "(3 * K + 1) * u \<le> 1" unfolding e1 using Ku small n1 u(2) by linarith
  have A0: "0 \<le> A" using P by linarith
  have a0: "0 \<le> a" by (simp add: a_def)
  have A': "A + a \<le> 2 ^ 1000" using A by (simp add: a_def)
  have W0: "0 \<le> W" unfolding W_def using u(1) h(1) A0 a0 by simp
  have "u * A \<le> u * (A + a)" using u(1) a0 by (intro mult_left_mono) simp_all
  then have "3 * K * (u * A + h) \<le> 3 * K * W" unfolding W_def using K(1)
    by (intro mult_left_mono) simp_all
  then have E: "E \<le> 3 * K * W" using inv unfolding E_def u_def h_def K_def by linarith
  have E0: "0 \<le> E" by (simp add: E_def)
  have "u * (A + a) \<le> 1 / 1024 * 2 ^ 1000" using u(1,2) A' A0 a0 by (intro mult_mono) simp_all
  then have Wb: "W \<le> 1 / 1024 * 2 ^ 1000 + 1" using h(2) by (simp add: W_def)
  have "3 * K * W \<le> 3 * 2 ^ 20 * (1 / 1024 * 2 ^ 1000 + 1)"
    using K Wb W0 by (intro mult_mono) simp_all
  also have "\<dots> \<le> 2 ^ 1020" by simp
  finally have Eb: "E \<le> 2 ^ 1020" using E by linarith
  have ab: "a \<le> 2 ^ 1000" using A' A0 by linarith
  have "\<exists>p. fl (x * y) = Fin p \<and> \<bar>p - x * y\<bar> \<le> roundoff * \<bar>x * y\<bar> + tiny"
  proof (rule fl_err2)
    have "(2::real) ^ 1000 \<le> 2 ^ 1023" by simp
    then show "\<bar>x * y\<bar> \<le> 2 ^ 1023" using ab unfolding a_def by (rule order_trans [rotated])
  qed
  then obtain p where p: "fl (x * y) = Fin p" "\<bar>p - x * y\<bar> \<le> u * a + h"
    unfolding u_def h_def a_def by blast
  have "u * a \<le> 1 * a" using u(2) a0 by (intro mult_right_mono) simp_all
  then have ua: "u * a \<le> a" by simp
  define t where "t = s + p"
  have "P + x * y \<le> \<bar>P\<bar> + a" "- (P + x * y) \<le> \<bar>P\<bar> + a" unfolding a_def by linarith+
  then have PP: "\<bar>P + x * y\<bar> \<le> A + a" using P by linarith
  have tt: "\<bar>t\<bar> \<le> (A + a) + E + (u * a + h)"
    unfolding t_def E_def using PP p(2) by linarith
  have "\<exists>s'. fl t = Fin s' \<and> \<bar>s' - t\<bar> \<le> roundoff * \<bar>t\<bar> + tiny"
  proof (rule fl_err2)
    have "\<bar>t\<bar> \<le> 2 ^ 1000 + 2 ^ 1020 + (2 ^ 1000 + 1)" using tt A' Eb ua ab h(2) by linarith
    also have "\<dots> \<le> 2 ^ 1023" by simp
    finally show "\<bar>t\<bar> \<le> 2 ^ 1023" .
  qed
  then obtain s' where s': "fl t = Fin s'" "\<bar>s' - t\<bar> \<le> u * \<bar>t\<bar> + h"
    unfolding u_def h_def by blast
  have ut: "u * \<bar>t\<bar> \<le> u * ((A + a) + E + (u * a + h))" using tt u(1) by (rule mult_left_mono)
  have "s' - (P + x * y) = (s' - t) + (s - P) + (p - x * y)" by (simp add: t_def)
  then have "\<bar>s' - (P + x * y)\<bar> \<le> (u * \<bar>t\<bar> + h) + E + (u * a + h)"
    using s'(2) p(2) unfolding E_def by linarith
  also have "\<dots> \<le> u * ((A + a) + E + (u * a + h)) + h + E + (u * a + h)" using ut by linarith
  also have "\<dots> \<le> E * (1 + u) + (2 + u) * W"
  proof -
    have "u * (u * a) \<le> u * (u * (A + a))" using u(1) A0 by (intro mult_left_mono) simp_all
    moreover have "u * a \<le> u * (A + a)" using u(1) A0 by (intro mult_left_mono) simp_all
    moreover have "u * ((A + a) + E + (u * a + h)) + h + E + (u * a + h)
        = E * (1 + u) + (u * (A + a) + u * (u * a) + u * a + (2 + u) * h)"
      by (simp add: algebra_simps)
    moreover have "(2 + u) * W = 2 * (u * (A + a)) + u * (u * (A + a)) + (2 + u) * h"
      by (simp add: W_def algebra_simps)
    ultimately show ?thesis by linarith
  qed
  also have "\<dots> \<le> 3 * (K + 1) * W" using E W0 u(1) K(1) c by (rule dot_step_bound)
  finally have r: "\<bar>s' - (P + x * y)\<bar> \<le> 3 * (K + 1) * W" .
  have e: "real (Suc k) = K + 1" by (simp add: K_def)
  have "jadd (Fin s) (jmul (Fin x) (Fin y)) = Fin s'" using p(1) s'(1) by (simp add: t_def)
  then show ?thesis using r unfolding e W_def u_def h_def a_def by blast
qed

lemma dot_bounds:
  fixes s P A :: real
  assumes "length xs = length ys"
    and "k + length xs \<le> 2 ^ 20"
    and "\<bar>s - P\<bar> \<le> 3 * real k * (roundoff * A + tiny)"
    and "\<bar>P\<bar> \<le> A"
    and "A + (\<Sum>(x, y)\<leftarrow>zip xs ys. \<bar>x * y\<bar>) \<le> 2 ^ 1000"
  shows "\<exists>s'. foldl (\<lambda>dot p. jadd dot (jmul (fst p) (snd p))) (Fin s)
                 (zip (map Fin xs) (map Fin ys)) = Fin s'
           \<and> \<bar>s' - (P + (\<Sum>(x, y)\<leftarrow>zip xs ys. x * y))\<bar>
               \<le> 3 * real (k + length xs)
                   * (roundoff * (A + (\<Sum>(x, y)\<leftarrow>zip xs ys. \<bar>x * y\<bar>)) + tiny)"
  using assms
proof (induction xs ys arbitrary: k s P A rule: list_induct2)
  case Nil
  then show ?case by simp
next
  case (Cons x xs y ys)
  define R where "R = (\<Sum>(x, y)\<leftarrow>zip xs ys. \<bar>x * y\<bar>)"
  have R0: "0 \<le> R" unfolding R_def by (intro sum_list_nonneg) auto
  have tot: "A + \<bar>x * y\<bar> + R \<le> 2 ^ 1000" using Cons.prems(4) by (simp add: R_def)
  have A: "A + \<bar>x * y\<bar> \<le> 2 ^ 1000" using tot R0 by linarith
  have k: "k < 2 ^ 20" using Cons.prems(1) by simp
  obtain s1 where s1: "jadd (Fin s) (jmul (Fin x) (Fin y)) = Fin s1"
      "\<bar>s1 - (P + x * y)\<bar> \<le> 3 * real (Suc k) * (roundoff * (A + \<bar>x * y\<bar>) + tiny)"
    using dot_step [OF Cons.prems(2,3) A k] by blast
  have P': "\<bar>P + x * y\<bar> \<le> A + \<bar>x * y\<bar>" using Cons.prems(3) by linarith
  have l: "Suc k + length xs \<le> 2 ^ 20" using Cons.prems(1) by simp
  have tot': "A + \<bar>x * y\<bar> + (\<Sum>(x, y)\<leftarrow>zip xs ys. \<bar>x * y\<bar>) \<le> 2 ^ 1000"
    using tot by (simp add: R_def)
  obtain s' where s': "foldl (\<lambda>dot p. jadd dot (jmul (fst p) (snd p))) (Fin s1)
                 (zip (map Fin xs) (map Fin ys)) = Fin s'"
      "\<bar>s' - (P + x * y + (\<Sum>(x, y)\<leftarrow>zip xs ys. x * y))\<bar>
               \<le> 3 * real (Suc k + length xs)
                   * (roundoff * (A + \<bar>x * y\<bar> + (\<Sum>(x, y)\<leftarrow>zip xs ys. \<bar>x * y\<bar>)) + tiny)"
    using Cons.IH [OF l s1(2) P' tot'] by blast
  have e1: "P + (\<Sum>(x, y)\<leftarrow>zip (x # xs) (y # ys). x * y)
            = P + x * y + (\<Sum>(x, y)\<leftarrow>zip xs ys. x * y)" by simp
  have e2: "A + (\<Sum>(x, y)\<leftarrow>zip (x # xs) (y # ys). \<bar>x * y\<bar>)
            = A + \<bar>x * y\<bar> + (\<Sum>(x, y)\<leftarrow>zip xs ys. \<bar>x * y\<bar>)" by simp
  have e3: "k + length (x # xs) = Suc k + length xs" by simp
  have "foldl (\<lambda>dot p. jadd dot (jmul (fst p) (snd p))) (Fin s)
          (zip (map Fin (x # xs)) (map Fin (y # ys))) = Fin s'"
    using s1(1) s'(1) by simp
  then show ?case unfolding e1 e2 e3 using s'(2) by blast
qed

text \<open>
  The accuracy of \<^verbatim>\<open>cosineSimilarity\<close> on finite vectors whose products do not
  overflow.
\<close>

lemma cosine_accuracy:
  assumes "length xs = length ys" "length xs \<le> 2 ^ 20"
    and "(\<Sum>(x, y)\<leftarrow>zip xs ys. \<bar>x * y\<bar>) \<le> 2 ^ 1000"
  shows "\<exists>d. cosineSimilarity (map Fin xs) (map Fin ys) = Fin d
     \<and> \<bar>d - (\<Sum>(x, y)\<leftarrow>zip xs ys. x * y)\<bar>
         \<le> 3 * real (length xs) * (roundoff * (\<Sum>(x, y)\<leftarrow>zip xs ys. \<bar>x * y\<bar>) + tiny)"
proof -
  have z: "cosineSimilarity (map Fin xs) (map Fin ys)
           = foldl (\<lambda>dot p. jadd dot (jmul (fst p) (snd p))) (Fin 0)
               (zip (map Fin xs) (map Fin ys))"
    using assms(1) by (intro cosineSimilarity_zip) simp
  have "\<exists>s'. foldl (\<lambda>dot p. jadd dot (jmul (fst p) (snd p))) (Fin 0)
                 (zip (map Fin xs) (map Fin ys)) = Fin s'
           \<and> \<bar>s' - (0 + (\<Sum>(x, y)\<leftarrow>zip xs ys. x * y))\<bar>
               \<le> 3 * real (0 + length xs)
                   * (roundoff * (0 + (\<Sum>(x, y)\<leftarrow>zip xs ys. \<bar>x * y\<bar>)) + tiny)"
    using assms by (intro dot_bounds) simp_all
  then show ?thesis unfolding z by simp
qed

lemma zip_self_sum: "(\<Sum>(x, y)\<leftarrow>zip ys ys. f x y) = (\<Sum>y\<leftarrow>ys. f y y)"
  by (induction ys) simp_all

lemma cosine_self:
  assumes "length ys \<le> 2 ^ 20" "\<bar>(\<Sum>y\<leftarrow>ys. y * y) - 1\<bar> \<le> 1 / 4"
  shows "\<exists>d. cosineSimilarity (map Fin ys) (map Fin ys) = Fin d
     \<and> \<bar>d - (\<Sum>y\<leftarrow>ys. y * y)\<bar> \<le> 5 * real (length ys) * roundoff"
proof -
  define T where "T = (\<Sum>y\<leftarrow>ys. y * y)"
  define n where "n = real (length ys)"
  have a: "(\<Sum>(x, y)\<leftarrow>zip ys ys. \<bar>x * y\<bar>) = T"
    unfolding zip_self_sum T_def by (simp add: abs_mult_self_eq)
  have b: "(\<Sum>(x, y)\<leftarrow>zip ys ys. x * y) = T" unfolding zip_self_sum T_def by simp
  have T: "T \<le> 5 / 4" using assms(2) unfolding T_def by linarith
  have "(5::real) / 4 \<le> 2 ^ 1000" by simp
  then have T2: "T \<le> 2 ^ 1000" using T by linarith
  obtain d where d: "cosineSimilarity (map Fin ys) (map Fin ys) = Fin d"
      "\<bar>d - T\<bar> \<le> 3 * n * (roundoff * T + tiny)"
    using cosine_accuracy [of ys ys] assms(1) T2 unfolding a b n_def by auto
  have "roundoff * T \<le> roundoff * (5 / 4)" using T roundoff_pos by (intro mult_left_mono) simp_all
  moreover have "tiny \<le> roundoff * (1 / 4)" by (simp add: tiny_def roundoff_def)
  ultimately have "roundoff * T + tiny \<le> roundoff * (5 / 4) + roundoff * (1 / 4)" by linarith
  also have "\<dots> = 3 / 2 * roundoff" by (simp add: algebra_simps)
  finally have "3 * n * (roundoff * T + tiny) \<le> 3 * n * (3 / 2 * roundoff)"
    unfolding n_def by (intro mult_left_mono) simp_all
  also have "\<dots> \<le> 5 * n * roundoff"
  proof -
    have "0 \<le> n * roundoff" unfolding n_def using roundoff_pos by simp
    then show ?thesis by (simp add: algebra_simps)
  qed
  finally have "\<bar>d - T\<bar> \<le> 5 * n * roundoff" using d(2) by linarith
  then show ?thesis using d(1) unfolding T_def n_def by blast
qed

lemma cosine_normalized:
  assumes r: "\<forall>x\<in>set zs. (x = 0 \<or> 1 / 2 ^ 500 \<le> \<bar>x\<bar>) \<and> \<bar>x\<bar> \<le> 2 ^ 500"
    and nz: "\<exists>x\<in>set zs. x \<noteq> 0"
    and n: "length zs \<le> 2 ^ 20"
  shows "\<exists>ys d. normalizeEmbedding (map Fin zs) = map Fin ys
     \<and> cosineSimilarity (map Fin ys) (map Fin ys) = Fin d
     \<and> \<bar>d - 1\<bar> \<le> (7 * real (length zs) + 10) * roundoff"
proof -
  define N where "N = real (length zs)"
  define u where "u = roundoff"
  obtain ys where ys: "normalizeEmbedding (map Fin zs) = map Fin ys" "length ys = length zs"
      "\<bar>(\<Sum>y\<leftarrow>ys. y * y) - 1\<bar> \<le> 2 * (N + 5) * u"
    using normalize_accuracy [OF r nz n] unfolding N_def u_def by blast
  have u: "0 \<le> u" "u \<le> 1 / 1024" "u = 1 / 2 ^ 53" by (simp_all add: u_def roundoff_def)
  have N: "0 \<le> N" "N \<le> 2 ^ 20"
  proof -
    show "0 \<le> N" by (simp add: N_def)
    have "real (length zs) \<le> real (2 ^ 20)" using n by (simp only: of_nat_le_iff)
    then show "N \<le> 2 ^ 20" by (simp add: N_def)
  qed
  have Nu: "N * u \<le> 2 ^ 20 * u" using N(2) u(1) by (rule mult_right_mono)
  have small: "2 ^ 20 * u \<le> 1 / 2 ^ 33" by (simp add: u(3))
  have n1: "(1::real) / 2 ^ 33 \<le> 1 / 16" by simp
  have e5: "2 * (N + 5) * u = 2 * (N * u) + 10 * u" by (simp add: algebra_simps)
  have q: "2 * (N + 5) * u \<le> 1 / 4" unfolding e5 using Nu small n1 u(2) by linarith
  have T: "\<bar>(\<Sum>y\<leftarrow>ys. y * y) - 1\<bar> \<le> 1 / 4" using ys(3) q by linarith
  have l: "length ys \<le> 2 ^ 20" using ys(2) n by simp
  obtain d where d: "cosineSimilarity (map Fin ys) (map Fin ys) = Fin d"
      "\<bar>d - (\<Sum>y\<leftarrow>ys. y * y)\<bar> \<le> 5 * N * u"
    using cosine_self [OF l T] unfolding N_def u_def ys(2) by blast
  have "2 * (N + 5) * u + 5 * N * u = (7 * N + 10) * u" by (simp add: algebra_simps)
  then have "\<bar>d - 1\<bar> \<le> (7 * N + 10) * u" using d(2) ys(3) by linarith
  then show ?thesis using ys(1) d(1) unfolding N_def u_def by blast
qed

lemma cosineSimilarity_general:
  "length a = length b \<Longrightarrow> cosineSimilarity a b = foldl jadd (Fin 0) (map2 jmul a b)"
  by (simp add: cosineSimilarity_zip foldl_map case_prod_beta)

lemma enorm_sq: "(enorm ws)\<^sup>2 = (\<Sum>y\<leftarrow>ws. y * y)"
proof -
  have "0 \<le> (\<Sum>y\<leftarrow>ws. y\<^sup>2)" by (intro sum_list_nonneg) auto
  then show ?thesis by (simp add: enorm_def power2_eq_square)
qed

lemma cosine_unit:
  assumes "length ws \<le> 2 ^ 20" "\<bar>enorm ws - 1\<bar> \<le> 1 / 10"
  shows "\<exists>d. cosineSimilarity (map Fin ws) (map Fin ws) = Fin d
     \<and> \<bar>d - (enorm ws)\<^sup>2\<bar> \<le> 5 * real (length ws) * roundoff"
proof -
  define c where "c = enorm ws"
  have c: "9 / 10 \<le> c" "c \<le> 11 / 10" using assms(2) unfolding c_def by linarith+
  have "9 / 10 * (9 / 10) \<le> c * c" using c(1) by (intro mult_mono) simp_all
  moreover have "c * c \<le> 11 / 10 * (11 / 10)" using c by (intro mult_mono) simp_all
  ultimately have "\<bar>c * c - 1\<bar> \<le> 1 / 4" by linarith
  then have "\<bar>(\<Sum>y\<leftarrow>ws. y * y) - 1\<bar> \<le> 1 / 4"
    using enorm_sq [of ws] by (simp add: c_def power2_eq_square)
  then show ?thesis unfolding enorm_sq using assms(1) by (intro cosine_self)
qed

text \<open>
  C5. For two vectors of one length \<^verbatim>\<open>cosineSimilarity\<close> is the sum, from left to
  right and rounded at every step, of the rounded products of their entries, with no
  division by a norm. For finite entries whose products do not overflow it is the real
  number \<open>\<Sum>\<^sub>i a\<^sub>i b\<^sub>i\<close> within \<open>3 n (\<Sum>\<^sub>i \<bar>a\<^sub>i b\<^sub>i\<bar> / 2\<^sup>5\<^sup>3 + 2\<^sup>-\<^sup>1\<^sup>0\<^sup>7\<^sup>5)\<close>. Hence the
  similarity of a vector with itself is the square of its norm within \<open>5 n / 2\<^sup>5\<^sup>3\<close> when
  that norm is near 1, and it is 1 within \<open>(7 n + 10) / 2\<^sup>5\<^sup>3\<close> for a vector that
  \<^verbatim>\<open>normalizeEmbedding\<close> has made from a vector in range.
\<close>

theorem cosineSimilarity_spec:
  "(length a = length b \<longrightarrow> cosineSimilarity a b = foldl jadd (Fin 0) (map2 jmul a b))
   \<and> (length xs = length ys \<and> length xs \<le> 2 ^ 20
        \<and> (\<Sum>(x, y)\<leftarrow>zip xs ys. \<bar>x * y\<bar>) \<le> 2 ^ 1000
      \<longrightarrow> (\<exists>d. cosineSimilarity (map Fin xs) (map Fin ys) = Fin d
             \<and> \<bar>d - (\<Sum>(x, y)\<leftarrow>zip xs ys. x * y)\<bar>
                 \<le> 3 * real (length xs)
                     * (roundoff * (\<Sum>(x, y)\<leftarrow>zip xs ys. \<bar>x * y\<bar>) + tiny)))
   \<and> (length ws \<le> 2 ^ 20 \<and> \<bar>enorm ws - 1\<bar> \<le> 1 / 10
      \<longrightarrow> (\<exists>d. cosineSimilarity (map Fin ws) (map Fin ws) = Fin d
             \<and> \<bar>d - (enorm ws)\<^sup>2\<bar> \<le> 5 * real (length ws) * roundoff))
   \<and> ((\<forall>x\<in>set zs. (x = 0 \<or> 1 / 2 ^ 500 \<le> \<bar>x\<bar>) \<and> \<bar>x\<bar> \<le> 2 ^ 500)
        \<and> (\<exists>x\<in>set zs. x \<noteq> 0) \<and> length zs \<le> 2 ^ 20
      \<longrightarrow> (\<exists>vs d. normalizeEmbedding (map Fin zs) = map Fin vs
             \<and> cosineSimilarity (map Fin vs) (map Fin vs) = Fin d
             \<and> \<bar>d - 1\<bar> \<le> (7 * real (length zs) + 10) * roundoff))"
proof (intro conjI impI)
  show "cosineSimilarity a b = foldl jadd (Fin 0) (map2 jmul a b)" if "length a = length b"
    using that by (rule cosineSimilarity_general)
  show "\<exists>d. cosineSimilarity (map Fin xs) (map Fin ys) = Fin d
             \<and> \<bar>d - (\<Sum>(x, y)\<leftarrow>zip xs ys. x * y)\<bar>
                 \<le> 3 * real (length xs)
                     * (roundoff * (\<Sum>(x, y)\<leftarrow>zip xs ys. \<bar>x * y\<bar>) + tiny)"
    if a: "length xs = length ys \<and> length xs \<le> 2 ^ 20
        \<and> (\<Sum>(x, y)\<leftarrow>zip xs ys. \<bar>x * y\<bar>) \<le> 2 ^ 1000"
    by (rule cosine_accuracy [OF a [THEN conjunct1] a [THEN conjunct2, THEN conjunct1]
          a [THEN conjunct2, THEN conjunct2]])
  show "\<exists>d. cosineSimilarity (map Fin ws) (map Fin ws) = Fin d
             \<and> \<bar>d - (enorm ws)\<^sup>2\<bar> \<le> 5 * real (length ws) * roundoff"
    if a: "length ws \<le> 2 ^ 20 \<and> \<bar>enorm ws - 1\<bar> \<le> 1 / 10"
    by (rule cosine_unit [OF a [THEN conjunct1] a [THEN conjunct2]])
  show "\<exists>vs d. normalizeEmbedding (map Fin zs) = map Fin vs
             \<and> cosineSimilarity (map Fin vs) (map Fin vs) = Fin d
             \<and> \<bar>d - 1\<bar> \<le> (7 * real (length zs) + 10) * roundoff"
    if a: "(\<forall>x\<in>set zs. (x = 0 \<or> 1 / 2 ^ 500 \<le> \<bar>x\<bar>) \<and> \<bar>x\<bar> \<le> 2 ^ 500)
        \<and> (\<exists>x\<in>set zs. x \<noteq> 0) \<and> length zs \<le> 2 ^ 20"
    by (rule cosine_normalized [OF a [THEN conjunct1] a [THEN conjunct2, THEN conjunct1]
          a [THEN conjunct2, THEN conjunct2]])
qed

theorem cosineSimilarity_spec_witness:
  "cosineSimilarity [Fin 2] [Fin 2] = Fin 4
   \<and> (\<exists>d. cosineSimilarity [Fin 2, Fin 1] [Fin 3, Fin 4] = Fin d
         \<and> \<bar>d - 10\<bar> \<le> 6 * (roundoff * 10 + tiny))
   \<and> (\<exists>d. cosineSimilarity [Fin 0, Fin 1] [Fin 0, Fin 1] = Fin d \<and> \<bar>d - 1\<bar> \<le> 10 * roundoff)
   \<and> (\<exists>vs d. normalizeEmbedding [Fin 3, Fin 4] = map Fin vs
         \<and> cosineSimilarity (map Fin vs) (map Fin vs) = Fin d \<and> \<bar>d - 1\<bar> \<le> 24 * roundoff)"
proof -
  have 1: "cosineSimilarity [Fin 2] [Fin 2] = Fin 4"
    using cosineSimilarity_spec [where a = "[Fin 2]" and b = "[Fin 2]", THEN conjunct1]
    by (simp add: fl_simps)
  have h2: "length [2, 1 :: real] = length [3, 4 :: real] \<and> length [2, 1 :: real] \<le> 2 ^ 20
        \<and> (\<Sum>(x, y)\<leftarrow>zip [2, 1 :: real] [3, 4]. \<bar>x * y\<bar>) \<le> 2 ^ 1000"
    by simp
  obtain d2 where d2: "cosineSimilarity (map Fin [2, 1]) (map Fin [3, 4]) = Fin d2"
      "\<bar>d2 - (\<Sum>(x, y)\<leftarrow>zip [2, 1] [3, 4]. x * y)\<bar>
         \<le> 3 * real (length [2, 1 :: real])
             * (roundoff * (\<Sum>(x, y)\<leftarrow>zip [2, 1 :: real] [3, 4]. \<bar>x * y\<bar>) + tiny)"
    using cosineSimilarity_spec [where xs = "[2, 1]" and ys = "[3, 4]", THEN conjunct2,
            THEN conjunct1, THEN mp, OF h2]
    by (elim exE conjE)
  have "cosineSimilarity [Fin 2, Fin 1] [Fin 3, Fin 4] = Fin d2
         \<and> \<bar>d2 - 10\<bar> \<le> 6 * (roundoff * 10 + tiny)"
    using d2 by simp
  then have 2: "\<exists>d. cosineSimilarity [Fin 2, Fin 1] [Fin 3, Fin 4] = Fin d
         \<and> \<bar>d - 10\<bar> \<le> 6 * (roundoff * 10 + tiny)"
    by (rule exI)
  have e: "enorm [0, 1] = 1" by (simp add: enorm_def)
  have h3: "length [0, 1 :: real] \<le> 2 ^ 20 \<and> \<bar>enorm [0, 1] - 1\<bar> \<le> 1 / 10"
    by (simp add: e)
  obtain d3 where d3: "cosineSimilarity (map Fin [0, 1]) (map Fin [0, 1]) = Fin d3"
      "\<bar>d3 - (enorm [0, 1])\<^sup>2\<bar> \<le> 5 * real (length [0, 1 :: real]) * roundoff"
    using cosineSimilarity_spec [where ws = "[0, 1]", THEN conjunct2, THEN conjunct2,
            THEN conjunct1, THEN mp, OF h3]
    by (elim exE conjE)
  have "cosineSimilarity [Fin 0, Fin 1] [Fin 0, Fin 1] = Fin d3 \<and> \<bar>d3 - 1\<bar> \<le> 10 * roundoff"
    using d3 by (simp add: e)
  then have 3: "\<exists>d. cosineSimilarity [Fin 0, Fin 1] [Fin 0, Fin 1] = Fin d
         \<and> \<bar>d - 1\<bar> \<le> 10 * roundoff"
    by (rule exI)
  have h4: "(\<forall>x\<in>set [3, 4 :: real]. (x = 0 \<or> 1 / 2 ^ 500 \<le> \<bar>x\<bar>) \<and> \<bar>x\<bar> \<le> 2 ^ 500)
        \<and> (\<exists>x\<in>set [3, 4 :: real]. x \<noteq> 0) \<and> length [3, 4 :: real] \<le> 2 ^ 20"
    by simp
  obtain vs d4 where d4: "normalizeEmbedding (map Fin [3, 4]) = map Fin vs"
      "cosineSimilarity (map Fin vs) (map Fin vs) = Fin d4"
      "\<bar>d4 - 1\<bar> \<le> (7 * real (length [3, 4 :: real]) + 10) * roundoff"
    using cosineSimilarity_spec [where zs = "[3, 4]", THEN conjunct2, THEN conjunct2,
            THEN conjunct2, THEN mp, OF h4]
    by (elim exE conjE)
  have "normalizeEmbedding [Fin 3, Fin 4] = map Fin vs
         \<and> cosineSimilarity (map Fin vs) (map Fin vs) = Fin d4 \<and> \<bar>d4 - 1\<bar> \<le> 24 * roundoff"
    using d4 by simp
  then have 4: "\<exists>vs d. normalizeEmbedding [Fin 3, Fin 4] = map Fin vs
         \<and> cosineSimilarity (map Fin vs) (map Fin vs) = Fin d \<and> \<bar>d - 1\<bar> \<le> 24 * roundoff"
    by (intro exI)
  show ?thesis using 1 2 3 4 by (intro conjI)
qed

lemma fl_one_plus: "fl (1 + 1 / 2 ^ 60) = Fin 1"
proof -
  have e: "expo (1 + 1 / 2 ^ 60) = 0" by (rule expo_unique) simp_all
  have u: "(2::real) powi (0 - 52) = 1 / 2 ^ 52" using p2_neg [of 52] by simp
  have "rne ((1 + 1 / 2 ^ 60) / (1 / 2 ^ 52)) = 2 ^ 52" by (simp add: rne_def Let_def)
  then show ?thesis unfolding fl_def Let_def e u by simp
qed

lemma fl_huge_sq: "fl (huge * huge) = PInf" "fl (- (huge * huge)) = NInf"
proof -
  have "(2::real) ^ 1024 \<le> huge * huge" by (simp add: huge_def)
  then show "fl (huge * huge) = PInf" by (rule fl_overflow)
  then show "fl (- (huge * huge)) = NInf" by (simp add: fl_minus)
qed

text \<open>
  The similarity is not the real sum of the products: products that overflow give
  \<^verbatim>\<open>NaN\<close> where that sum is 0, and a term below the last bit of the sum is lost.
\<close>

theorem cosineSimilarity_exact_counterexample:
  "cosineSimilarity [Fin huge, Fin huge] [Fin huge, Fin (- huge)] = NaN
   \<and> (\<Sum>(x, y)\<leftarrow>zip [huge, huge] [huge, - huge]. x * y) = 0
   \<and> cosineSimilarity [Fin 1, Fin (1 / 2 ^ 60)] [Fin 1, Fin 1] = Fin 1
   \<and> (\<Sum>(x, y)\<leftarrow>zip [1, 1 / 2 ^ 60] [1, 1 :: real]. x * y) = 1 + 1 / 2 ^ 60"
proof -
  have 1: "cosineSimilarity [Fin huge, Fin huge] [Fin huge, Fin (- huge)] = NaN"
    by (simp add: cosineSimilarity_def idx_def upt_rec fl_huge_sq)
  have p: "fl (1 / 2 ^ 60) = Fin (1 / 2 ^ 60)"
  proof (rule fl_exact [where m = 1 and k = "- int 60"])
    show "(1::real) / 2 ^ 60 = of_int 1 * 2 powi (- int 60)" by (simp only: p2_neg)
  qed simp_all
  have q: "fl (1 + 1 / 2 ^ 60) = Fin 1" by (rule fl_one_plus)
  have "jadd (jadd (Fin 0) (jmul (Fin 1) (Fin 1))) (jmul (Fin (1 / 2 ^ 60)) (Fin 1)) = Fin 1"
    using p q by (simp add: fl_simps)
  then have 3: "cosineSimilarity [Fin 1, Fin (1 / 2 ^ 60)] [Fin 1, Fin 1] = Fin 1"
    by (simp add: cosineSimilarity_def idx_def upt_rec)
  show ?thesis using 1 3 by simp
qed

section \<open>Properties of the profile builder\<close>

lemma update_loop:
  "n \<le> length acc \<Longrightarrow>
   foldl (\<lambda>s i. s[i := g (s ! i) i]) acc [0..<n]
   = map (\<lambda>i. if i < n then g (acc ! i) i else acc ! i) [0..<length acc]"
proof (induction n)
  case 0
  then show ?case by (simp add: map_nth)
next
  case (Suc n)
  then have ih: "foldl (\<lambda>s i. s[i := g (s ! i) i]) acc [0..<n]
      = map (\<lambda>i. if i < n then g (acc ! i) i else acc ! i) [0..<length acc]"
    and n: "n < length acc" by simp_all
  show ?case
    using n by (simp add: ih) (rule nth_equalityI, simp_all add: nth_list_update less_Suc_eq)
qed

lemma add_into_map:
  "length acc = len \<Longrightarrow> add_into len acc emb = map (\<lambda>i. jadd (acc ! i) (idx emb i)) [0..<len]"
  unfolding add_into_def
  using update_loop [of len acc "\<lambda>x i. jadd x (idx emb i)"] by simp

lemma averageEmbeddings_unfold:
  "embs \<noteq> [] \<Longrightarrow>
   averageEmbeddings embs
   = Inr (map (\<lambda>v. jdiv v (Fin (real (length embs))))
            (foldl (add_into (length (hd embs))) (replicate (length (hd embs)) (Fin 0)) embs))"
  by (cases embs) (simp_all add: averageEmbeddings_def Let_def fl_simps)

lemma averageEmbeddings_nonempty: "embs \<noteq> [] \<Longrightarrow> \<exists>avg. averageEmbeddings embs = Inr avg"
  by (cases embs) (simp_all add: averageEmbeddings_def Let_def fl_simps)

lemma intra_components:
  "foldl (intra_step cen) (m, x) embs
   = (foldl (\<lambda>x s. if jgt s x then s else x) m (map (\<lambda>e. euclideanDistance e cen) embs),
      foldl (\<lambda>m d. if jlt d m then d else m) x (map (\<lambda>e. cosineSimilarity e cen) embs))"
  by (induction embs arbitrary: m x) (simp_all add: intra_step_def Let_def)

lemma buildPersonProfile_unfold:
  "averageEmbeddings embs = Inr avg \<Longrightarrow>
   buildPersonProfile embs
   = Inr \<lparr>embeddings = embs, centroid = normalizeEmbedding avg,
          maxIntraDistance =
            foldl (\<lambda>x s. if jgt s x then s else x) (Fin 0)
              (map (\<lambda>e. euclideanDistance e (normalizeEmbedding avg)) embs),
          minIntraSimilarity =
            foldl (\<lambda>m d. if jlt d m then d else m) PInf
              (map (\<lambda>e. cosineSimilarity e (normalizeEmbedding avg)) embs)\<rparr>"
  by (simp add: buildPersonProfile_def and_then_def Let_def intra_components)

lemma buildPersonProfile_nonempty: "embs \<noteq> [] \<Longrightarrow> \<exists>p. buildPersonProfile embs = Inr p"
  using averageEmbeddings_nonempty [of embs]
  by (auto simp: buildPersonProfile_def and_then_def Let_def)

lemma buildPersonProfile_embeddings: "buildPersonProfile embs = Inr p \<Longrightarrow> embeddings p = embs"
  by (auto simp: buildPersonProfile_def and_then_def Let_def split: sum.splits)

lemma average_example: "averageEmbeddings [[Fin 1], [Fin 3]] = Inr [Fin 2]"
  by (simp add: averageEmbeddings_def add_into_def idx_def fl_simps)

lemma build_example:
  "buildPersonProfile [[Fin 1], [Fin 1], [Fin 1], [Fin 1], [Fin 1], [Fin 1]]
   = Inr \<lparr>embeddings = [[Fin 1], [Fin 1], [Fin 1], [Fin 1], [Fin 1], [Fin 1]],
          centroid = [Fin 1], maxIntraDistance = Fin 0, minIntraSimilarity = Fin 1\<rparr>"
  by (simp add: buildPersonProfile_def averageEmbeddings_def add_into_def idx_def and_then_def
        normalizeEmbedding_def intra_step_def euclideanDistance_def cosineSimilarity_def
        jsub_def jgt_def Let_def fl_simps)

section \<open>Properties of the augmentation\<close>

lemma each_length: "each f xs = Inr ys \<Longrightarrow> length ys = length xs"
  by (induction xs arbitrary: ys) (auto simp: and_then_def split: sum.splits)

lemma augmented_nonempty: "getAugmentedEmbeddings col img = Inr embs \<Longrightarrow> embs \<noteq> []"
  by (auto simp: getAugmentedEmbeddings_def and_then_def split: sum.splits if_splits)

lemma augmented_length:
  "getAugmentedEmbeddings col img = Inr embs \<Longrightarrow> metadata col img = Inr (w, h) \<Longrightarrow>
   length embs = (if known w \<and> known h then 3 else 1)"
  by (auto simp: getAugmentedEmbeddings_def and_then_def ratios_def split: sum.splits if_splits
        dest!: each_length)

lemma floor_ratio: "nat \<lfloor>real n * real a / real b\<rfloor> = (n * a) div b"
proof -
  have "\<lfloor>real n * real a / real b\<rfloor> = \<lfloor>real (n * a) / real b\<rfloor>" by simp
  also have "\<dots> = int ((n * a) div b)" by (rule floor_divide_of_nat_eq)
  finally show ?thesis by simp
qed

lemma side_92: "nat \<lfloor>real n * 23 / 25\<rfloor> = (n * 23) div 25"
  using floor_ratio [of n 23 25] by simp

lemma side_85: "nat \<lfloor>real n * 17 / 20\<rfloor> = (n * 17) div 20"
  using floor_ratio [of n 17 20] by simp

lemma augmented_unknown:
  assumes "metadata col img = Inr (w, h)" "\<not> (known w \<and> known h)"
    "preprocessTo112 col img = Inr full" "getEmbeddingFromBuffer col full = Inr e0"
  shows "getAugmentedEmbeddings col img = Inr [normalizeEmbedding e0]"
  using assms by (auto simp: getAugmentedEmbeddings_def and_then_def)

lemma augmented_known:
  assumes "metadata col img = Inr (Some W, Some H)" "0 < W" "0 < H"
    "preprocessTo112 col img = Inr full"
    "extractResize col img ((W - (min W H * 23) div 25) div 2)
       ((H - (min W H * 23) div 25) div 2) ((min W H * 23) div 25) = Inr c1"
    "extractResize col img ((W - (min W H * 17) div 20) div 2)
       ((H - (min W H * 17) div 20) div 2) ((min W H * 17) div 20) = Inr c2"
    "getEmbeddingFromBuffer col full = Inr e0" "getEmbeddingFromBuffer col c1 = Inr e1"
    "getEmbeddingFromBuffer col c2 = Inr e2"
  shows "getAugmentedEmbeddings col img
         = Inr [normalizeEmbedding e0, normalizeEmbedding e1, normalizeEmbedding e2]"
  using assms
  by (simp add: getAugmentedEmbeddings_def and_then_def known_def ratios_def crop_def
        side_92 side_85 Let_def)

lemma augmented_first:
  assumes "getAugmentedEmbeddings col img = Inr embs"
  shows "\<exists>w h full e0. metadata col img = Inr (w, h) \<and> preprocessTo112 col img = Inr full
           \<and> getEmbeddingFromBuffer col full = Inr e0 \<and> hd embs = normalizeEmbedding e0
           \<and> length embs = (if known w \<and> known h then 3 else 1)"
proof -
  obtain w h where m: "metadata col img = Inr (w, h)"
    using assms by (auto simp: getAugmentedEmbeddings_def and_then_def split: sum.splits)
  obtain full where p: "preprocessTo112 col img = Inr full"
    using assms m by (auto simp: getAugmentedEmbeddings_def and_then_def split: sum.splits)
  obtain e0 where e: "getEmbeddingFromBuffer col full = Inr e0" "hd embs = normalizeEmbedding e0"
    using assms m p
    by (auto simp: getAugmentedEmbeddings_def and_then_def split: sum.splits if_splits)
  show ?thesis using m p e augmented_length [OF assms m] by blast
qed

lemma variants_nonempty:
  assumes "each (getAugmentedEmbeddings col) fs = Inr variants" "fs \<noteq> []"
  shows "concat variants \<noteq> []"
proof -
  obtain f rest where fs: "fs = f # rest" using assms(2) by (cases fs) auto
  then obtain v vs where v: "variants = v # vs" "getAugmentedEmbeddings col f = Inr v"
    using assms(1) by (auto simp: and_then_def split: sum.splits)
  then show ?thesis using augmented_nonempty [of col f v] by simp
qed

lemma stub_known_variants:
  "getAugmentedEmbeddings (stub (Some 100, Some 80) model) img
   = Inr [normalizeEmbedding (model 0), normalizeEmbedding (model 73),
          normalizeEmbedding (model 68)]"
  by (simp add: getAugmentedEmbeddings_def stub_def and_then_def known_def ratios_def crop_def)

lemma stub_half_known_variants:
  "getAugmentedEmbeddings (stub (None, Some 80) model) img = Inr [normalizeEmbedding (model 0)]"
  by (simp add: getAugmentedEmbeddings_def stub_def and_then_def known_def)

section \<open>Properties of the pairwise sweep\<close>

lemma sweep_product:
  "foldl (\<lambda>st query. foldl (sweep_step cfg query) st saveds) st0 qs
   = foldl (\<lambda>st p. sweep_step cfg (fst p) st (snd p)) st0 (List.product qs saveds)"
  by (induction qs arbitrary: st0) (simp_all add: foldl_map)

lemma sweep_components:
  "foldl (\<lambda>st p. sweep_step cfg (fst p) st (snd p)) (m, x, n) ps
   = (foldl (\<lambda>m d. if jlt d m then d else m) m (map (\<lambda>(q, s). euclideanDistance s q) ps),
      foldl (\<lambda>x s. if jgt s x then s else x) x (map (\<lambda>(q, s). cosineSimilarity s q) ps),
      n + length (filter (\<lambda>(q, s). jle (euclideanDistance s q) (DISTANCE_THRESHOLD cfg)
                               \<and> jge (cosineSimilarity s q) (COSINE_THRESHOLD cfg)) ps))"
  by (induction ps arbitrary: m x n) (auto simp: sweep_step_def Let_def)

lemma sweep_eq:
  "sweep cfg qs saveds
   = (foldl (\<lambda>m d. if jlt d m then d else m) PInf (distances qs saveds),
      foldl (\<lambda>x s. if jgt s x then s else x) NInf (similarities qs saveds),
      length (matching_pairs cfg qs saveds))"
  by (simp add: sweep_def sweep_product sweep_components distances_def similarities_def
        matching_pairs_def)

lemma sweep_spec:
  "(distances qs saveds \<noteq> [] \<and> NaN \<notin> set (distances qs saveds)
      \<longrightarrow> is_min (fst (sweep cfg qs saveds)) (distances qs saveds))
   \<and> (similarities qs saveds \<noteq> [] \<and> NaN \<notin> set (similarities qs saveds)
      \<longrightarrow> is_max (fst (snd (sweep cfg qs saveds))) (similarities qs saveds))
   \<and> snd (snd (sweep cfg qs saveds)) = length (matching_pairs cfg qs saveds)"
  using min_of_sweep [of "distances qs saveds"] max_of_sweep [of "similarities qs saveds"]
  by (auto simp: sweep_eq)

lemma sweep_spec_numbers:
  "(numbers (distances qs saveds) \<noteq> []
      \<longrightarrow> is_min (fst (sweep cfg qs saveds)) (numbers (distances qs saveds)))
   \<and> (numbers (distances qs saveds) = [] \<longrightarrow> fst (sweep cfg qs saveds) = PInf)
   \<and> (numbers (similarities qs saveds) \<noteq> []
      \<longrightarrow> is_max (fst (snd (sweep cfg qs saveds))) (numbers (similarities qs saveds)))
   \<and> (numbers (similarities qs saveds) = [] \<longrightarrow> fst (snd (sweep cfg qs saveds)) = NInf)"
proof -
  have a: "fst (sweep cfg qs saveds)
           = foldl (\<lambda>m d. if jlt d m then d else m) PInf (numbers (distances qs saveds))"
    using running_min_numbers [of PInf "distances qs saveds"] by (simp add: sweep_eq)
  have b: "fst (snd (sweep cfg qs saveds))
           = foldl (\<lambda>x s. if jgt s x then s else x) NInf (numbers (similarities qs saveds))"
    using running_max_numbers [of NInf "similarities qs saveds"] by (simp add: sweep_eq)
  show ?thesis
    unfolding a b
    using min_of_sweep [OF _ numbers_no_NaN, of "distances qs saveds"]
          max_of_sweep [OF _ numbers_no_NaN, of "similarities qs saveds"]
    by auto
qed

lemma sweep_min_above0:
  assumes "\<forall>q\<in>set qs. \<forall>s\<in>set saveds.
             length s = length q \<and> (\<exists>i<length q. apart (s ! i) (q ! i))"
  shows "\<not> jle (fst (sweep cfg qs saveds)) (Fin 0)"
proof -
  let ?r = "foldl (\<lambda>m d. if jlt d m then d else m) PInf (distances qs saveds)"
  have "?r = PInf \<or> ?r \<in> set (distances qs saveds)" by (rule running_min_mem)
  then show ?thesis
  proof
    assume "?r = PInf"
    then show ?thesis by (simp add: sweep_eq)
  next
    assume "?r \<in> set (distances qs saveds)"
    then obtain q s where "q \<in> set qs" "s \<in> set saveds" "?r = euclideanDistance s q"
      by (auto simp: distances_def)
    then obtain i where "length s = length q" "i < length s" "apart (s ! i) (q ! i)"
      using assms by force
    then have "\<not> jle (euclideanDistance s q) (Fin 0)" by (rule distance_above0)
    then show ?thesis using \<open>?r = euclideanDistance s q\<close> by (simp add: sweep_eq)
  qed
qed

section \<open>Properties of the endpoints\<close>

lemma post_find_result:
  assumes "given name" "data (profilePath (the name)) = Some profile"
    "getAugmentedEmbeddings col f = Inr qs"
  shows "post_find cfg col data name (Some f) =
     Inr \<lparr>status = 200,
          body = Result
            \<lparr>message = (if isMatch cfg (fst (sweep cfg qs (embeddings profile)))
                                       (fst (snd (sweep cfg qs (embeddings profile))))
                                       (snd (snd (sweep cfg qs (embeddings profile))))
                         then ''Person Found'' else ''Person Not Found''),
             minDistance = fst (sweep cfg qs (embeddings profile)),
             maxSimilarity = fst (snd (sweep cfg qs (embeddings profile))),
             centroidDistance = euclideanDistance (centroid profile) (qs ! 0),
             centroidSimilarity = cosineSimilarity (centroid profile) (qs ! 0),
             variantMatches = snd (snd (sweep cfg qs (embeddings profile))),
             thresholds = \<lparr>distance = DISTANCE_THRESHOLD cfg, cosine = COSINE_THRESHOLD cfg\<rparr>\<rparr>\<rparr>"
proof -
  obtain q rest where qs: "qs = q # rest"
    using augmented_nonempty [OF assms(3)] by (cases qs) auto
  obtain a b c where sw: "sweep cfg qs (embeddings profile) = (a, b, c)"
    by (cases "sweep cfg qs (embeddings profile)") auto
  show ?thesis
    using assms sw
    by (simp add: post_find_def qs first_def against_def and_then_def)
qed

lemma post_register_ok:
  assumes "given name" "fs \<noteq> []" "each (getAugmentedEmbeddings col) fs = Inr variants"
  shows "\<exists>p. buildPersonProfile (concat variants) = Inr p
     \<and> post_register col data name (Some fs)
       = (Inr \<lparr>status = 200,
               body = Registered ''Person Registered'' (\<Sum>v\<leftarrow>variants. length v)
                        (maxIntraDistance p) (minIntraSimilarity p)\<rparr>,
          data(profilePath (the name) \<mapsto> json_profile p))"
proof -
  obtain p where p: "buildPersonProfile (concat variants) = Inr p"
    using buildPersonProfile_nonempty [OF variants_nonempty [OF assms(3,2)]] by blast
  show ?thesis
    using assms p by (simp add: post_register_def Let_def length_concat)
qed

lemma post_register_200:
  assumes "post_register col data name files = (Inr \<lparr>status = 200, body = b\<rparr>, data')"
  shows "\<exists>fs variants. files = Some fs \<and> fs \<noteq> [] \<and> given name
           \<and> each (getAugmentedEmbeddings col) fs = Inr variants"
  using assms
  by (cases files) (auto simp: post_register_def Let_def split: if_splits sum.splits)

lemma post_register_store:
  "snd (post_register col data name files) = data
   \<or> (\<exists>fs variants p. files = Some fs \<and> fs \<noteq> []
        \<and> each (getAugmentedEmbeddings col) fs = Inr variants
        \<and> buildPersonProfile (concat variants) = Inr p
        \<and> snd (post_register col data name files)
            = data(profilePath (the name) \<mapsto> json_profile p))"
proof (cases "given name")
  case False
  then show ?thesis by (simp add: post_register_def)
next
  case True
  show ?thesis
  proof (cases files)
    case None
    then show ?thesis using True by (simp add: post_register_def)
  next
    case (Some fs)
    show ?thesis
    proof (cases "fs = []")
      case True
      then show ?thesis using Some \<open>given name\<close> by (simp add: post_register_def)
    next
      case False
      show ?thesis
      proof (cases "each (getAugmentedEmbeddings col) fs")
        case (Inl e)
        then show ?thesis using \<open>given name\<close> Some False by (simp add: post_register_def)
      next
        case (Inr variants)
        then obtain p where "buildPersonProfile (concat variants) = Inr p"
          "post_register col data name (Some fs)
             = (Inr \<lparr>status = 200,
                   body = Registered ''Person Registered'' (\<Sum>v\<leftarrow>variants. length v)
                            (maxIntraDistance p) (minIntraSimilarity p)\<rparr>,
                data(profilePath (the name) \<mapsto> json_profile p))"
          using post_register_ok [OF \<open>given name\<close> False, of col variants data] by blast
        then show ?thesis using Some False Inr by simp
      qed
    qed
  qed
qed

lemma post_register_keeps_nonempty:
  assumes "\<forall>k p. data k = Some p \<longrightarrow> embeddings p \<noteq> []"
    and "snd (post_register col data name files) k = Some p"
  shows "embeddings p \<noteq> []"
proof -
  consider "snd (post_register col data name files) = data"
    | fs variants q where "fs \<noteq> []" "each (getAugmentedEmbeddings col) fs = Inr variants"
        "buildPersonProfile (concat variants) = Inr q"
        "snd (post_register col data name files)
           = data(profilePath (the name) \<mapsto> json_profile q)"
    using post_register_store [of col data name files] by blast
  then show ?thesis
  proof cases
    case 1
    then show ?thesis using assms by simp
  next
    case 2
    have ne: "concat variants \<noteq> []" using variants_nonempty [OF 2(2,1)] .
    have "embeddings (json_profile q) \<noteq> []"
      using buildPersonProfile_embeddings [OF 2(3)] ne by (simp add: json_profile_def)
    then show ?thesis using assms 2(4) by (cases "k = profilePath (the name)") auto
  qed
qed

text \<open>
  C1. A verification that reaches the comparison answers with the result of the pairwise
  sweep, and it reports a match exactly when the least distance of the sweep is at most
  \<^verbatim>\<open>DISTANCE_THRESHOLD\<close>, its greatest similarity is at least
  \<^verbatim>\<open>COSINE_THRESHOLD\<close> and the number of matching pairs is at least
  \<^verbatim>\<open>REQUIRED_VARIANT_MATCHES\<close>. With a distance threshold of zero, a query is not a
  match, whatever the similarities, when each of its variants is apart from every stored
  variant (of the same length) in some entry: the two entries differ by
  \<open>2\<^sup>-\<^sup>5\<^sup>3\<^sup>7\<close> or more, or one of them is not finite.
\<close>

theorem find_isMatch_spec:
  assumes "given name" "data (profilePath (the name)) = Some profile"
    "getAugmentedEmbeddings col f = Inr qs"
  shows "\<exists>r. post_find cfg col data name (Some f) = Inr \<lparr>status = 200, body = Result r\<rparr>
     \<and> (minDistance r, maxSimilarity r, variantMatches r) = sweep cfg qs (embeddings profile)
     \<and> (message r = ''Person Found'' \<longleftrightarrow>
          jle (minDistance r) (DISTANCE_THRESHOLD cfg)
          \<and> jge (maxSimilarity r) (COSINE_THRESHOLD cfg)
          \<and> jge (Fin (real (variantMatches r))) (REQUIRED_VARIANT_MATCHES cfg))
     \<and> (message r = ''Person Not Found'' \<longleftrightarrow>
          \<not> (jle (minDistance r) (DISTANCE_THRESHOLD cfg)
             \<and> jge (maxSimilarity r) (COSINE_THRESHOLD cfg)
             \<and> jge (Fin (real (variantMatches r))) (REQUIRED_VARIANT_MATCHES cfg)))
     \<and> (DISTANCE_THRESHOLD cfg = Fin 0
          \<and> (\<forall>q\<in>set qs. \<forall>s\<in>set (embeddings profile).
                length s = length q \<and> (\<exists>i<length q. apart (s ! i) (q ! i)))
        \<longrightarrow> message r = ''Person Not Found'')"
  using sweep_min_above0 [of qs "embeddings profile" cfg]
        post_find_result [of name data profile col f qs cfg] assms
  by (simp add: isMatch_def)

theorem find_isMatch_spec_witness:
  "post_find default_config (stub (None, None) (\<lambda>b. [Fin 2])) [profilePath ''alice'' \<mapsto> alice]
     (Some ''alice'') (Some 0)
   = Inr \<lparr>status = 200,
          body = Result \<lparr>message = ''Person Found'', minDistance = Fin 0, maxSimilarity = Fin 1,
                         centroidDistance = Fin 1, centroidSimilarity = Fin 0,
                         variantMatches = 1,
                         thresholds = \<lparr>distance = DISTANCE_THRESHOLD default_config,
                                       cosine = COSINE_THRESHOLD default_config\<rparr>\<rparr>\<rparr>
   \<and> (\<exists>r. post_find (default_config\<lparr>DISTANCE_THRESHOLD := Fin 0\<rparr>)
            (stub (None, None) (\<lambda>b. [Fin (- 2)])) [profilePath ''bob'' \<mapsto> bob]
            (Some ''bob'') (Some 0)
          = Inr \<lparr>status = 200, body = Result r\<rparr> \<and> message r = ''Person Not Found'')"
proof -
  have g: "given (Some ''alice'')" by (simp add: given_def)
  have d: "[profilePath ''alice'' \<mapsto> alice] (profilePath (the (Some ''alice''))) = Some alice"
    by simp
  have q: "getAugmentedEmbeddings (stub (None, None) (\<lambda>b. [Fin 2])) 0 = Inr [[Fin 1]]"
    by (simp add: getAugmentedEmbeddings_def stub_def and_then_def known_def
          normalizeEmbedding_def fl_simps)
  have g2: "given (Some ''bob'')" by (simp add: given_def)
  have d2: "[profilePath ''bob'' \<mapsto> bob] (profilePath (the (Some ''bob''))) = Some bob"
    by simp
  have q2: "getAugmentedEmbeddings (stub (None, None) (\<lambda>b. [Fin (- 2)])) 0 = Inr [[Fin (- 1)]]"
    by (simp add: getAugmentedEmbeddings_def stub_def and_then_def known_def
          normalizeEmbedding_def fl_simps)
  have s: "sweep default_config [[Fin 1]] (embeddings alice) = (Fin 0, Fin 1, 1)"
    by (simp add: sweep_def sweep_step_def alice_def euclideanDistance_def
          cosineSimilarity_def idx_def default_config_eq jsub_def jgt_def jge_def fl_simps)
  show ?thesis
    using find_isMatch_spec [where data = "[profilePath ''alice'' \<mapsto> alice]"
            and cfg = default_config, OF g d q]
          find_isMatch_spec [where data = "[profilePath ''bob'' \<mapsto> bob]"
            and cfg = "default_config\<lparr>DISTANCE_THRESHOLD := Fin 0\<rparr>", OF g2 d2 q2]
          s
          post_find_result [where data = "[profilePath ''alice'' \<mapsto> alice]"
            and cfg = default_config, OF g d q]
    by (auto simp: isMatch_def default_config_eq jge_def alice_def bob_def apart_def
          euclideanDistance_def cosineSimilarity_def idx_def jsub_def fl_simps)
qed

lemma register_carol:
  "post_register (stub (None, None) (\<lambda>b. [Fin 1, Fin faint])) Map.empty (Some ''carol'') (Some [0])
   = (Inr \<lparr>status = 200, body = Registered ''Person Registered'' 1 (Fin 0) (Fin 1)\<rparr>,
      [profilePath ''carol'' \<mapsto> carol])"
proof -
  have n: "normalizeEmbedding [Fin 1, Fin faint] = [Fin 1, Fin faint]"
    by (simp add: normalizeEmbedding_def fl_simps faint_simps)
  have a: "averageEmbeddings [[Fin 1, Fin faint]] = Inr [Fin 1, Fin faint]"
    by (simp add: averageEmbeddings_def add_into_def idx_def upt_rec fl_simps faint_simps)
  have d: "euclideanDistance [Fin 1, Fin faint] [Fin 1, Fin faint] = Fin 0"
    by (simp add: euclideanDistance_def idx_def upt_rec jsub_def fl_simps faint_simps)
  have c: "cosineSimilarity [Fin 1, Fin faint] [Fin 1, Fin faint] = Fin 1"
    by (simp add: cosineSimilarity_def idx_def upt_rec fl_simps faint_simps)
  have b: "buildPersonProfile [[Fin 1, Fin faint]] = Inr carol"
    by (simp add: buildPersonProfile_def a and_then_def n intra_step_def d c jgt_def carol_def
          Let_def)
  show ?thesis
    by (simp add: post_register_def given_def getAugmentedEmbeddings_def stub_def and_then_def
          known_def n b json_profile_def json_number_def carol_def)
qed

text \<open>
  With a distance threshold of zero a query can match a stored variant that it differs
  from: the square of a difference below \<open>2\<^sup>-\<^sup>5\<^sup>3\<^sup>7\<close> underflows to zero. Here the
  stored variant is \<open>[1, faint]\<close>, the query's only variant is \<open>[1, 0]\<close>, and the
  answer is a match at distance 0.
\<close>

theorem find_isMatch_underflow_counterexample:
  "getAugmentedEmbeddings (stub (None, None) (\<lambda>b. [Fin 1, Fin 0])) 0 = Inr [[Fin 1, Fin 0]]
   \<and> embeddings carol = [[Fin 1, Fin faint]]
   \<and> [Fin 1, Fin faint] \<noteq> [Fin 1, Fin 0]
   \<and> post_find (default_config\<lparr>DISTANCE_THRESHOLD := Fin 0\<rparr>)
        (stub (None, None) (\<lambda>b. [Fin 1, Fin 0])) [profilePath ''carol'' \<mapsto> carol]
        (Some ''carol'') (Some 0)
      = Inr \<lparr>status = 200,
             body = Result \<lparr>message = ''Person Found'', minDistance = Fin 0,
                            maxSimilarity = Fin 1, centroidDistance = Fin 0,
                            centroidSimilarity = Fin 1, variantMatches = 1,
                            thresholds = \<lparr>distance = Fin 0,
                                          cosine = COSINE_THRESHOLD default_config\<rparr>\<rparr>\<rparr>"
proof -
  have n: "normalizeEmbedding [Fin 1, Fin 0] = [Fin 1, Fin 0]"
    by (simp add: normalizeEmbedding_def fl_simps)
  have q: "getAugmentedEmbeddings (stub (None, None) (\<lambda>b. [Fin 1, Fin 0])) 0 = Inr [[Fin 1, Fin 0]]"
    by (simp add: getAugmentedEmbeddings_def stub_def and_then_def known_def n)
  have d: "euclideanDistance [Fin 1, Fin faint] [Fin 1, Fin 0] = Fin 0"
    by (simp add: euclideanDistance_def idx_def upt_rec jsub_def fl_simps faint_simps)
  have c: "cosineSimilarity [Fin 1, Fin faint] [Fin 1, Fin 0] = Fin 1"
    by (simp add: cosineSimilarity_def idx_def upt_rec fl_simps faint_simps)
  have s: "sweep (default_config\<lparr>DISTANCE_THRESHOLD := Fin 0\<rparr>) [[Fin 1, Fin 0]] (embeddings carol)
           = (Fin 0, Fin 1, 1)"
    by (simp add: sweep_def sweep_step_def carol_def d c default_config_eq jgt_def jge_def)
  have f: "faint \<noteq> 0" using faint_pos by simp
  show ?thesis
    using q s f
    by (simp add: post_find_def given_def first_def against_def and_then_def isMatch_def
          carol_def d c default_config_eq jge_def)
qed

text \<open>
  C2. In a verification, \<^verbatim>\<open>minDistance\<close> is the least distance and
  \<^verbatim>\<open>maxSimilarity\<close> the greatest similarity over all pairs of a query variant and
  a stored variant, when there is a pair and no distance or similarity is \<^verbatim>\<open>NaN\<close>.
  In general the loop skips a \<^verbatim>\<open>NaN\<close>: they are the least and the greatest of the
  values that are numbers, and \<^verbatim>\<open>Infinity\<close> and \<^verbatim>\<open>-Infinity\<close> when there is none.
  \<^verbatim>\<open>variantMatches\<close> is the number of pairs that pass both thresholds at once.
\<close>

theorem find_sweep_spec:
  assumes "given name" "data (profilePath (the name)) = Some profile"
    "getAugmentedEmbeddings col f = Inr qs"
  shows "\<exists>r. post_find cfg col data name (Some f) = Inr \<lparr>status = 200, body = Result r\<rparr>
     \<and> (distances qs (embeddings profile) \<noteq> [] \<and> NaN \<notin> set (distances qs (embeddings profile))
          \<longrightarrow> is_min (minDistance r) (distances qs (embeddings profile)))
     \<and> (similarities qs (embeddings profile) \<noteq> []
          \<and> NaN \<notin> set (similarities qs (embeddings profile))
          \<longrightarrow> is_max (maxSimilarity r) (similarities qs (embeddings profile)))
     \<and> (numbers (distances qs (embeddings profile)) \<noteq> []
          \<longrightarrow> is_min (minDistance r) (numbers (distances qs (embeddings profile))))
     \<and> (numbers (distances qs (embeddings profile)) = [] \<longrightarrow> minDistance r = PInf)
     \<and> (numbers (similarities qs (embeddings profile)) \<noteq> []
          \<longrightarrow> is_max (maxSimilarity r) (numbers (similarities qs (embeddings profile))))
     \<and> (numbers (similarities qs (embeddings profile)) = [] \<longrightarrow> maxSimilarity r = NInf)
     \<and> variantMatches r = length (matching_pairs cfg qs (embeddings profile))"
  using sweep_spec [of qs "embeddings profile" cfg]
        sweep_spec_numbers [of qs "embeddings profile" cfg]
        post_find_result [of name data profile col f qs cfg] assms
  by simp

theorem find_sweep_spec_witness:
  "\<exists>r. post_find default_config (stub (None, None) (\<lambda>b. [Fin 2])) [profilePath ''alice'' \<mapsto> alice]
         (Some ''alice'') (Some 0) = Inr \<lparr>status = 200, body = Result r\<rparr>
     \<and> is_min (minDistance r) [Fin 0, Fin 2]
     \<and> is_max (maxSimilarity r) [Fin 1, Fin (- 1)]
     \<and> variantMatches r = length [([Fin 1], [Fin 1])]"
proof -
  have g: "given (Some ''alice'')" by (simp add: given_def)
  have d: "[profilePath ''alice'' \<mapsto> alice] (profilePath (the (Some ''alice''))) = Some alice"
    by simp
  have q: "getAugmentedEmbeddings (stub (None, None) (\<lambda>b. [Fin 2])) 0 = Inr [[Fin 1]]"
    by (simp add: getAugmentedEmbeddings_def stub_def and_then_def known_def
          normalizeEmbedding_def fl_simps)
  have ds: "distances [[Fin 1]] (embeddings alice) = [Fin 0, Fin 2]"
    by (simp add: distances_def alice_def euclideanDistance_def idx_def jsub_def fl_simps)
  have ss: "similarities [[Fin 1]] (embeddings alice) = [Fin 1, Fin (- 1)]"
    by (simp add: similarities_def alice_def cosineSimilarity_def idx_def fl_simps)
  have mp: "matching_pairs default_config [[Fin 1]] (embeddings alice) = [([Fin 1], [Fin 1])]"
    by (simp add: matching_pairs_def alice_def euclideanDistance_def cosineSimilarity_def idx_def
          jsub_def default_config_eq jge_def fl_simps)
  show ?thesis
    using find_sweep_spec [where data = "[profilePath ''alice'' \<mapsto> alice]"
            and cfg = default_config, OF g d q]
    by (simp add: ds ss mp) blast
qed

text \<open>
  C6. In a verification, \<^verbatim>\<open>centroidDistance\<close> and \<^verbatim>\<open>centroidSimilarity\<close> compare
  the stored centroid with the first query variant: they are the same for any other
  sequence of variants with that first element. The centroid has no part in the decision:
  with any other stored centroid the message, the least distance, the greatest similarity
  and the number of matching pairs are the same.
\<close>

theorem find_centroid_spec:
  assumes "given name" "data (profilePath (the name)) = Some profile"
    "getAugmentedEmbeddings (col :: ('i, 'b) collaborators) f = Inr qs"
  shows "\<exists>r. post_find cfg col data name (Some f) = Inr \<lparr>status = 200, body = Result r\<rparr>
     \<and> qs \<noteq> []
     \<and> centroidDistance r = euclideanDistance (centroid profile) (hd qs)
     \<and> centroidSimilarity r = cosineSimilarity (centroid profile) (hd qs)
     \<and> (\<forall>(col' :: ('i, 'b) collaborators) rest. getAugmentedEmbeddings col' f = Inr (hd qs # rest) \<longrightarrow>
          (\<exists>r'. post_find cfg col' data name (Some f) = Inr \<lparr>status = 200, body = Result r'\<rparr>
             \<and> centroidDistance r' = centroidDistance r
             \<and> centroidSimilarity r' = centroidSimilarity r))
     \<and> (\<forall>c. \<exists>r'. post_find cfg col (data(profilePath (the name) \<mapsto> profile\<lparr>centroid := c\<rparr>))
                     name (Some f) = Inr \<lparr>status = 200, body = Result r'\<rparr>
             \<and> message r' = message r \<and> minDistance r' = minDistance r
             \<and> maxSimilarity r' = maxSimilarity r \<and> variantMatches r' = variantMatches r)"
proof -
  have ne: "qs \<noteq> []" using augmented_nonempty [OF assms(3)] .
  have hd0: "qs ! 0 = hd qs" using ne by (simp add: hd_conv_nth)
  have other: "post_find cfg col' data name (Some f) = Inr \<lparr>status = 200, body = Result
            \<lparr>message = (if isMatch cfg (fst (sweep cfg (hd qs # rest) (embeddings profile)))
                                       (fst (snd (sweep cfg (hd qs # rest) (embeddings profile))))
                                       (snd (snd (sweep cfg (hd qs # rest) (embeddings profile))))
                         then ''Person Found'' else ''Person Not Found''),
             minDistance = fst (sweep cfg (hd qs # rest) (embeddings profile)),
             maxSimilarity = fst (snd (sweep cfg (hd qs # rest) (embeddings profile))),
             centroidDistance = euclideanDistance (centroid profile) (hd qs),
             centroidSimilarity = cosineSimilarity (centroid profile) (hd qs),
             variantMatches = snd (snd (sweep cfg (hd qs # rest) (embeddings profile))),
             thresholds = \<lparr>distance = DISTANCE_THRESHOLD cfg, cosine = COSINE_THRESHOLD cfg\<rparr>\<rparr>\<rparr>"
    if "getAugmentedEmbeddings col' f = Inr (hd qs # rest)"
    for col' :: "('i, 'b) collaborators" and rest
    using post_find_result [of name data profile col' f "hd qs # rest" cfg] assms(1,2) that
    by simp
  have upd: "(data(profilePath (the name) \<mapsto> profile\<lparr>centroid := c\<rparr>)) (profilePath (the name))
             = Some (profile\<lparr>centroid := c\<rparr>)" for c
    by simp
  have this_one: "post_find cfg col data name (Some f) = Inr \<lparr>status = 200, body = Result
            \<lparr>message = (if isMatch cfg (fst (sweep cfg qs (embeddings profile)))
                                       (fst (snd (sweep cfg qs (embeddings profile))))
                                       (snd (snd (sweep cfg qs (embeddings profile))))
                         then ''Person Found'' else ''Person Not Found''),
             minDistance = fst (sweep cfg qs (embeddings profile)),
             maxSimilarity = fst (snd (sweep cfg qs (embeddings profile))),
             centroidDistance = euclideanDistance (centroid profile) (hd qs),
             centroidSimilarity = cosineSimilarity (centroid profile) (hd qs),
             variantMatches = snd (snd (sweep cfg qs (embeddings profile))),
             thresholds = \<lparr>distance = DISTANCE_THRESHOLD cfg, cosine = COSINE_THRESHOLD cfg\<rparr>\<rparr>\<rparr>"
    (is "_ = Inr \<lparr>status = 200, body = Result ?r\<rparr>")
    using post_find_result [of name data profile col f qs cfg] assms hd0 by simp
  have moved: "\<exists>r'. post_find cfg col (data(profilePath (the name) \<mapsto> profile\<lparr>centroid := c\<rparr>))
                     name (Some f) = Inr \<lparr>status = 200, body = Result r'\<rparr>
             \<and> message r' = message ?r \<and> minDistance r' = minDistance ?r
             \<and> maxSimilarity r' = maxSimilarity ?r \<and> variantMatches r' = variantMatches ?r" for c
    using post_find_result [of name "data(profilePath (the name) \<mapsto> profile\<lparr>centroid := c\<rparr>)"
             "profile\<lparr>centroid := c\<rparr>" col f qs cfg, OF assms(1) upd assms(3)]
    by simp
  have others: "\<exists>r'. post_find cfg col' data name (Some f) = Inr \<lparr>status = 200, body = Result r'\<rparr>
             \<and> centroidDistance r' = centroidDistance ?r
             \<and> centroidSimilarity r' = centroidSimilarity ?r"
    if "getAugmentedEmbeddings col' f = Inr (hd qs # rest)"
    for col' :: "('i, 'b) collaborators" and rest
    using other [OF that] by simp
  show ?thesis
  proof (rule exI [of _ ?r], intro conjI allI impI)
    show "post_find cfg col data name (Some f) = Inr \<lparr>status = 200, body = Result ?r\<rparr>"
      by (rule this_one)
    show "qs \<noteq> []" by (rule ne)
    show "centroidDistance ?r = euclideanDistance (centroid profile) (hd qs)" by simp
    show "centroidSimilarity ?r = cosineSimilarity (centroid profile) (hd qs)" by simp
    show "\<exists>r'. post_find cfg col' data name (Some f) = Inr \<lparr>status = 200, body = Result r'\<rparr>
             \<and> centroidDistance r' = centroidDistance ?r
             \<and> centroidSimilarity r' = centroidSimilarity ?r"
      if "getAugmentedEmbeddings col' f = Inr (hd qs # rest)"
    for col' :: "('i, 'b) collaborators" and rest
      by (rule others [OF that])
    show "\<exists>r'. post_find cfg col (data(profilePath (the name) \<mapsto> profile\<lparr>centroid := c\<rparr>))
                     name (Some f) = Inr \<lparr>status = 200, body = Result r'\<rparr>
             \<and> message r' = message ?r \<and> minDistance r' = minDistance ?r
             \<and> maxSimilarity r' = maxSimilarity ?r \<and> variantMatches r' = variantMatches ?r" for c
      by (rule moved)
  qed
qed

theorem find_centroid_spec_witness:
  "\<exists>r. post_find default_config (stub (Some 100, Some 80) (\<lambda>b. if b = 0 then [Fin 2] else [Fin (- 2)]))
         [profilePath ''bob'' \<mapsto> bob] (Some ''bob'') (Some 0)
        = Inr \<lparr>status = 200, body = Result r\<rparr>
      \<and> centroidDistance r = Fin 0 \<and> centroidSimilarity r = Fin 1"
proof -
  have g: "given (Some ''bob'')" by (simp add: given_def)
  have d: "[profilePath ''bob'' \<mapsto> bob] (profilePath (the (Some ''bob''))) = Some bob"
    by simp
  have q: "getAugmentedEmbeddings (stub (Some 100, Some 80) (\<lambda>b. if b = 0 then [Fin 2] else [Fin (- 2)])) 0
           = Inr [[Fin 1], [Fin (- 1)], [Fin (- 1)]]"
    by (simp add: stub_known_variants normalizeEmbedding_def fl_simps)
  show ?thesis
    using find_centroid_spec [where data = "[profilePath ''bob'' \<mapsto> bob]"
            and cfg = default_config, OF g d q]
    by (auto simp: bob_def euclideanDistance_def cosineSimilarity_def idx_def jsub_def fl_simps)
qed

text \<open>
  C7. A verification with a name and an image, for a name that has no stored profile,
  answers with status 200 and the message "Person not registered" alone, whatever the
  collaborators would do: nothing is computed.
\<close>

theorem find_not_registered:
  "given name \<and> data (profilePath (the name)) = None \<longrightarrow>
   post_find cfg col data name (Some f)
     = Inr \<lparr>status = 200, body = Message ''Person not registered''\<rparr>"
  by (simp add: post_find_def)

theorem find_not_registered_witness:
  "post_find default_config (stub (None, None) (\<lambda>b. [Fin 2])) [profilePath ''alice'' \<mapsto> alice]
     (Some ''bob'') (Some 0)
   = Inr \<lparr>status = 200, body = Message ''Person not registered''\<rparr>"
  using find_not_registered [where name = "Some ''bob''"
          and data = "[profilePath ''alice'' \<mapsto> alice]" and cfg = default_config
          and col = "stub (None, None) (\<lambda>b. [Fin 2])" and f = 0]
  by (simp add: given_def profilePath_def)

text \<open>
  C8. A registration without a name, or with a name and no image, and a verification
  without a name, or with a name and no image, answer with status 400 and a message;
  the stored profiles are unchanged, and neither they nor the collaborators have a part
  in the answer.
\<close>

theorem validation_spec:
  "(\<not> given name \<longrightarrow>
      post_register col data name files
        = (Inr \<lparr>status = 400, body = Message ''Name is required''\<rparr>, data)
      \<and> post_find cfg col data name query
        = Inr \<lparr>status = 400, body = Message ''Name required''\<rparr>)
   \<and> (given name \<and> (files = None \<or> files = Some []) \<longrightarrow>
      post_register col data name files
        = (Inr \<lparr>status = 400, body = Message ''At least one image required''\<rparr>, data))
   \<and> (given name \<and> query = None \<longrightarrow>
      post_find cfg col data name query
        = Inr \<lparr>status = 400, body = Message ''Image required''\<rparr>)"
  by (auto simp: post_register_def post_find_def)

theorem validation_spec_witness:
  "post_register (stub (None, None) (\<lambda>b. [Fin 2])) [profilePath ''alice'' \<mapsto> alice] (Some '''') (Some [0])
     = (Inr \<lparr>status = 400, body = Message ''Name is required''\<rparr>, [profilePath ''alice'' \<mapsto> alice])
   \<and> post_find default_config (stub (None, None) (\<lambda>b. [Fin 2])) [profilePath ''alice'' \<mapsto> alice] None (Some 0)
     = Inr \<lparr>status = 400, body = Message ''Name required''\<rparr>
   \<and> post_register (stub (None, None) (\<lambda>b. [Fin 2])) [profilePath ''alice'' \<mapsto> alice] (Some ''alice'') (Some [])
     = (Inr \<lparr>status = 400, body = Message ''At least one image required''\<rparr>, [profilePath ''alice'' \<mapsto> alice])
   \<and> post_find default_config (stub (None, None) (\<lambda>b. [Fin 2])) [profilePath ''alice'' \<mapsto> alice] (Some ''alice'') None
     = Inr \<lparr>status = 400, body = Message ''Image required''\<rparr>"
  using validation_spec [where name = "Some ''''" and files = "Some [0]" and query = "Some 0"
          and col = "stub (None, None) (\<lambda>b. [Fin 2])" and cfg = default_config
          and data = "[profilePath ''alice'' \<mapsto> alice]"]
        validation_spec [where name = None and files = "Some [0]" and query = "Some 0"
          and col = "stub (None, None) (\<lambda>b. [Fin 2])" and cfg = default_config
          and data = "[profilePath ''alice'' \<mapsto> alice]"]
        validation_spec [where name = "Some ''alice''" and files = "Some []" and query = None
          and col = "stub (None, None) (\<lambda>b. [Fin 2])" and cfg = default_config
          and data = "[profilePath ''alice'' \<mapsto> alice]"]
  by (simp add: given_def)

text \<open>
  C9. For an image whose width or height is missing, the augmentation gives one
  embedding, the normalized embedding of the full image resized to the model's input.
  For an image of known width and height it gives three, in this order: that of the
  full image, then those of the centred square crops of side \<open>\<lfloor>0.92 square\<rfloor>\<close> and
  \<open>\<lfloor>0.85 square\<rfloor>\<close>, where \<open>square\<close> is the smaller dimension. Whenever it gives a
  result, its first element is the normalized embedding of the full image. A registration
  that succeeds reports as \<^verbatim>\<open>samplesStored\<close> the number of variants of all its images.
\<close>

theorem augmentation_spec:
  "(metadata col img = Inr (w, h) \<and> \<not> (known w \<and> known h)
      \<and> preprocessTo112 col img = Inr full \<and> getEmbeddingFromBuffer col full = Inr e0
    \<longrightarrow> getAugmentedEmbeddings col img = Inr [normalizeEmbedding e0])
   \<and> (metadata col img = Inr (Some W, Some H) \<and> 0 < W \<and> 0 < H
      \<and> preprocessTo112 col img = Inr full
      \<and> extractResize col img ((W - (min W H * 23) div 25) div 2)
           ((H - (min W H * 23) div 25) div 2) ((min W H * 23) div 25) = Inr c1
      \<and> extractResize col img ((W - (min W H * 17) div 20) div 2)
           ((H - (min W H * 17) div 20) div 2) ((min W H * 17) div 20) = Inr c2
      \<and> getEmbeddingFromBuffer col full = Inr e0 \<and> getEmbeddingFromBuffer col c1 = Inr e1
      \<and> getEmbeddingFromBuffer col c2 = Inr e2
    \<longrightarrow> getAugmentedEmbeddings col img
          = Inr [normalizeEmbedding e0, normalizeEmbedding e1, normalizeEmbedding e2])
   \<and> (getAugmentedEmbeddings col img = Inr embs
    \<longrightarrow> (\<exists>w h full e0. metadata col img = Inr (w, h) \<and> preprocessTo112 col img = Inr full
           \<and> getEmbeddingFromBuffer col full = Inr e0 \<and> hd embs = normalizeEmbedding e0
           \<and> length embs = (if known w \<and> known h then 3 else 1)))
   \<and> (given name \<and> fs \<noteq> [] \<and> each (getAugmentedEmbeddings col) fs = Inr variants
    \<longrightarrow> length variants = length fs
        \<and> (\<exists>p. post_register col data name (Some fs)
              = (Inr \<lparr>status = 200,
                      body = Registered ''Person Registered'' (\<Sum>v\<leftarrow>variants. length v)
                               (maxIntraDistance p) (minIntraSimilarity p)\<rparr>,
                 data(profilePath (the name) \<mapsto> json_profile p))))
   \<and> (post_register col data name files = (Inr \<lparr>status = 200, body = b\<rparr>, data')
    \<longrightarrow> (\<exists>fs variants d s. files = Some fs
           \<and> each (getAugmentedEmbeddings col) fs = Inr variants
           \<and> b = Registered ''Person Registered'' (\<Sum>v\<leftarrow>variants. length v) d s))"
proof (intro conjI impI)
  assume "metadata col img = Inr (w, h) \<and> \<not> (known w \<and> known h)
      \<and> preprocessTo112 col img = Inr full \<and> getEmbeddingFromBuffer col full = Inr e0"
  then show "getAugmentedEmbeddings col img = Inr [normalizeEmbedding e0]"
    by (elim conjE) (rule augmented_unknown; assumption)
next
  assume "metadata col img = Inr (Some W, Some H) \<and> 0 < W \<and> 0 < H
      \<and> preprocessTo112 col img = Inr full
      \<and> extractResize col img ((W - (min W H * 23) div 25) div 2)
           ((H - (min W H * 23) div 25) div 2) ((min W H * 23) div 25) = Inr c1
      \<and> extractResize col img ((W - (min W H * 17) div 20) div 2)
           ((H - (min W H * 17) div 20) div 2) ((min W H * 17) div 20) = Inr c2
      \<and> getEmbeddingFromBuffer col full = Inr e0 \<and> getEmbeddingFromBuffer col c1 = Inr e1
      \<and> getEmbeddingFromBuffer col c2 = Inr e2"
  then show "getAugmentedEmbeddings col img
          = Inr [normalizeEmbedding e0, normalizeEmbedding e1, normalizeEmbedding e2]"
    by (elim conjE) (rule augmented_known; assumption)
next
  assume "getAugmentedEmbeddings col img = Inr embs"
  then show "\<exists>w h full e0. metadata col img = Inr (w, h) \<and> preprocessTo112 col img = Inr full
           \<and> getEmbeddingFromBuffer col full = Inr e0 \<and> hd embs = normalizeEmbedding e0
           \<and> length embs = (if known w \<and> known h then 3 else 1)"
    by (rule augmented_first)
next
  assume a: "given name \<and> fs \<noteq> [] \<and> each (getAugmentedEmbeddings col) fs = Inr variants"
  then have a1: "given name" and a2: "fs \<noteq> []"
    and a3: "each (getAugmentedEmbeddings col) fs = Inr variants" by simp_all
  show "length variants = length fs" using a3 by (rule each_length)
  show "\<exists>p. post_register col data name (Some fs)
              = (Inr \<lparr>status = 200,
                      body = Registered ''Person Registered'' (\<Sum>v\<leftarrow>variants. length v)
                               (maxIntraDistance p) (minIntraSimilarity p)\<rparr>,
                 data(profilePath (the name) \<mapsto> json_profile p))"
    using post_register_ok [OF a1 a2 a3, of data] by blast
next
  assume r: "post_register col data name files = (Inr \<lparr>status = 200, body = b\<rparr>, data')"
  then obtain fs variants where f: "files = Some fs" "fs \<noteq> []" "given name"
      "each (getAugmentedEmbeddings col) fs = Inr variants"
    using post_register_200 by blast
  obtain p where p: "post_register col data name (Some fs)
       = (Inr \<lparr>status = 200,
               body = Registered ''Person Registered'' (\<Sum>v\<leftarrow>variants. length v)
                        (maxIntraDistance p) (minIntraSimilarity p)\<rparr>,
          data(profilePath (the name) \<mapsto> json_profile p))"
    using post_register_ok [OF f(3,2,4), of data] by blast
  have "b = Registered ''Person Registered'' (\<Sum>v\<leftarrow>variants. length v)
              (maxIntraDistance p) (minIntraSimilarity p)"
    using r p f(1) by simp
  then show "\<exists>fs variants d s. files = Some fs
           \<and> each (getAugmentedEmbeddings col) fs = Inr variants
           \<and> b = Registered ''Person Registered'' (\<Sum>v\<leftarrow>variants. length v) d s"
    using f(1,4) by blast
qed

theorem augmentation_spec_witness:
  "getAugmentedEmbeddings (stub (None, Some 80) (\<lambda>b. [Fin 2])) 0 = Inr [[Fin 1]]
   \<and> getAugmentedEmbeddings
        (stub (Some 100, Some 80)
           (\<lambda>b. if b = 0 then [Fin 1, Fin 0] else if b = 73 then [Fin 0, Fin 1]
                else if b = 68 then [Fin 0, Fin (- 1)] else [Fin 0, Fin 0])) 0
      = Inr [[Fin 1, Fin 0], [Fin 0, Fin 1], [Fin 0, Fin (- 1)]]
   \<and> post_register (stub (Some 100, Some 80) (\<lambda>b. [Fin 2])) Map.empty (Some ''alice'') (Some [0, 1])
      = (Inr \<lparr>status = 200,
              body = Registered ''Person Registered'' 6 (Fin 0) (Fin 1)\<rparr>,
         [profilePath ''alice'' \<mapsto>
            \<lparr>embeddings = [[Fin 1], [Fin 1], [Fin 1], [Fin 1], [Fin 1], [Fin 1]],
             centroid = [Fin 1], maxIntraDistance = Fin 0, minIntraSimilarity = Fin 1\<rparr>])"
proof -
  let ?m = "\<lambda>b::nat. if b = 0 then [Fin 1, Fin 0] else if b = 73 then [Fin 0, Fin 1]
                else if b = 68 then [Fin 0, Fin (- 1)] else [Fin 0, Fin 0]"
  have n1: "normalizeEmbedding [Fin 2] = [Fin 1]" by (simp add: normalizeEmbedding_def fl_simps)
  have e: "each (getAugmentedEmbeddings (stub (Some 100, Some 80) (\<lambda>b. [Fin 2]))) [0, 1]
           = Inr [[[Fin 1], [Fin 1], [Fin 1]], [[Fin 1], [Fin 1], [Fin 1]]]"
    by (simp add: stub_known_variants and_then_def n1)
  have 1: "getAugmentedEmbeddings (stub (None, Some 80) (\<lambda>b. [Fin 2])) 0 = Inr [[Fin 1]]"
    using augmentation_spec [where col = "stub (None, Some 80) (\<lambda>b. [Fin 2])" and img = 0
            and w = None and h = "Some 80" and full = 0 and ?e0.0 = "[Fin 2]"]
    by (simp add: stub_def known_def n1)
  have 2: "getAugmentedEmbeddings (stub (Some 100, Some 80) ?m) 0
      = Inr [[Fin 1, Fin 0], [Fin 0, Fin 1], [Fin 0, Fin (- 1)]]"
    using augmentation_spec [where col = "stub (Some 100, Some 80) ?m" and img = 0
            and W = 100 and H = 80 and full = 0 and ?c1.0 = 73 and ?c2.0 = 68
            and ?e0.0 = "[Fin 1, Fin 0]" and ?e1.0 = "[Fin 0, Fin 1]"
            and ?e2.0 = "[Fin 0, Fin (- 1)]"]
    by (simp add: stub_def normalizeEmbedding_def fl_simps)
  have 3: "post_register (stub (Some 100, Some 80) (\<lambda>b. [Fin 2])) Map.empty (Some ''alice'') (Some [0, 1])
      = (Inr \<lparr>status = 200,
              body = Registered ''Person Registered'' 6 (Fin 0) (Fin 1)\<rparr>,
         [profilePath ''alice'' \<mapsto>
            \<lparr>embeddings = [[Fin 1], [Fin 1], [Fin 1], [Fin 1], [Fin 1], [Fin 1]],
             centroid = [Fin 1], maxIntraDistance = Fin 0, minIntraSimilarity = Fin 1\<rparr>])"
    using augmentation_spec [where col = "stub (Some 100, Some 80) (\<lambda>b. [Fin 2])"
            and name = "Some ''alice''" and fs = "[0, 1]" and data = Map.empty
            and variants = "[[[Fin 1], [Fin 1], [Fin 1]], [[Fin 1], [Fin 1], [Fin 1]]]"]
          e
    by (simp add: post_register_def given_def build_example json_profile_def json_number_def)
  show ?thesis using 1 2 3 by simp
qed

text \<open>
  C10. \<^verbatim>\<open>averageEmbeddings\<close> throws a TypeError on an empty array and on no other.
  The augmentation never gives an empty sequence, so that its first element exists and the
  variants of a non-empty list of images are not empty: neither endpoint ever ends in a
  TypeError, and a registration keeps every stored profile with at least one embedding.
\<close>

theorem nonempty_spec:
  "averageEmbeddings [] = Inl TypeError
   \<and> (embs \<noteq> [] \<longrightarrow> (\<exists>avg. averageEmbeddings embs = Inr avg)
                      \<and> (\<exists>p. buildPersonProfile embs = Inr p))
   \<and> (getAugmentedEmbeddings col img = Inr qs \<longrightarrow> qs \<noteq> [] \<and> first qs = Some (hd qs))
   \<and> (each (getAugmentedEmbeddings col) fs = Inr variants \<and> fs \<noteq> [] \<longrightarrow> concat variants \<noteq> [])
   \<and> fst (post_register col data name files) \<noteq> Inl TypeError
   \<and> post_find cfg col data name query \<noteq> Inl TypeError
   \<and> ((\<forall>k p. data k = Some p \<longrightarrow> embeddings p \<noteq> [])
        \<and> snd (post_register col data name files) k = Some p
      \<longrightarrow> embeddings p \<noteq> [])"
proof (intro conjI impI)
  show "embeddings p \<noteq> []"
    if "(\<forall>k p. data k = Some p \<longrightarrow> embeddings p \<noteq> [])
        \<and> snd (post_register col data name files) k = Some p"
    using that post_register_keeps_nonempty [of data col name files k p] by blast
  show "averageEmbeddings [] = Inl TypeError" by (simp add: averageEmbeddings_def fl_simps)
  show "\<exists>avg. averageEmbeddings embs = Inr avg" if "embs \<noteq> []"
    using that by (rule averageEmbeddings_nonempty)
  show "\<exists>p. buildPersonProfile embs = Inr p" if "embs \<noteq> []"
    using that by (rule buildPersonProfile_nonempty)
  show "qs \<noteq> []" if "getAugmentedEmbeddings col img = Inr qs"
    using that by (rule augmented_nonempty)
  show "first qs = Some (hd qs)" if "getAugmentedEmbeddings col img = Inr qs"
    using augmented_nonempty [OF that] by (cases qs) (simp_all add: first_def)
  show "concat variants \<noteq> []"
    if "each (getAugmentedEmbeddings col) fs = Inr variants \<and> fs \<noteq> []"
    using that variants_nonempty by blast
  show "fst (post_register col data name files) \<noteq> Inl TypeError"
  proof (cases "given name")
    case False
    then show ?thesis by (simp add: post_register_def)
  next
    case True
    show ?thesis
    proof (cases files)
      case None
      then show ?thesis using True by (simp add: post_register_def)
    next
      case (Some fs)
      show ?thesis
      proof (cases "fs = []")
        case True
        then show ?thesis using Some \<open>given name\<close> by (simp add: post_register_def)
      next
        case False
        show ?thesis
        proof (cases "each (getAugmentedEmbeddings col) fs")
          case (Inl e)
          then show ?thesis using \<open>given name\<close> Some False by (simp add: post_register_def)
        next
          case (Inr variants)
          then obtain p where "post_register col data name (Some fs)
             = (Inr \<lparr>status = 200,
                   body = Registered ''Person Registered'' (\<Sum>v\<leftarrow>variants. length v)
                            (maxIntraDistance p) (minIntraSimilarity p)\<rparr>,
                data(profilePath (the name) \<mapsto> json_profile p))"
            using post_register_ok [OF \<open>given name\<close> False, of col variants data] by blast
          then show ?thesis using Some by simp
        qed
      qed
    qed
  qed
  show "post_find cfg col data name query \<noteq> Inl TypeError"
  proof (cases "given name")
    case False
    then show ?thesis by (simp add: post_find_def)
  next
    case True
    show ?thesis
    proof (cases query)
      case None
      then show ?thesis using True by (simp add: post_find_def)
    next
      case (Some f)
      show ?thesis
      proof (cases "data (profilePath (the name))")
        case None
        then show ?thesis using True Some by (simp add: post_find_def)
      next
        case prof: (Some profile)
        show ?thesis
        proof (cases "getAugmentedEmbeddings col f")
          case (Inl e)
          then show ?thesis using True Some prof by (simp add: post_find_def)
        next
          case (Inr qs)
          show ?thesis
            using post_find_result [of name data profile col f qs cfg] True Some prof Inr
            by simp
        qed
      qed
    qed
  qed
qed

theorem nonempty_spec_witness:
  "averageEmbeddings [[Fin 1], [Fin 3]] = Inr [Fin 2]
   \<and> getAugmentedEmbeddings (stub (None, Some 80) (\<lambda>b. [Fin 2])) 0 = Inr [[Fin 1]]
   \<and> first [[Fin (1::real)]] = Some [Fin 1]
   \<and> concat [[[Fin (1::real)]]] \<noteq> []"
proof -
  have q: "getAugmentedEmbeddings (stub (None, Some 80) (\<lambda>b. [Fin 2])) 0 = Inr [[Fin 1]]"
    by (simp add: stub_half_known_variants normalizeEmbedding_def fl_simps)
  show ?thesis
    using nonempty_spec [where embs = "[[Fin 1], [Fin 3]]"
            and col = "stub (None, Some 80) (\<lambda>b. [Fin 2])" and img = 0 and qs = "[[Fin 1]]"
            and fs = "[0]" and variants = "[[[Fin 1]]]"]
          q average_example
    by (simp add: and_then_def)
qed

end
